theory Spec2Isabelle
  imports Complex_Main "HOL-Library.Log_Nat"
begin

section \<open>JavaScript numbers\<close>

text \<open>
  A JavaScript number is an IEEE 754 binary64 value. The finite ones are rationals, so
  a number is modelled as \<open>NaN\<close> or a rational, and every arithmetic result is rounded
  to the nearest value with a 53 bit significand, ties to even (\<open>fl\<close>). The exponent
  range is left unbounded: the infinities, the signed zero and the subnormal numbers are
  not modelled, since pixel offsets, millisecond timestamps and counter targets stay far
  inside the normal range.
\<close>

datatype jsnum = NaN | Num rat

definition ilog2 :: "rat \<Rightarrow> int" where
  \<comment> \<open>for \<open>0 < x\<close>: the exponent \<open>e\<close> with \<open>2 powi e \<le> x < 2 powi (e + 1)\<close>\<close>
  "ilog2 x =
     (if 1 \<le> x then int (floorlog 2 (nat \<lfloor>x\<rfloor>)) - 1
      else (let m = int (floorlog 2 (nat \<lfloor>1 / x\<rfloor>)) - 1
            in if x * 2 powi m = 1 then - m else - m - 1))"

definition rne :: "rat \<Rightarrow> int" where
  \<comment> \<open>round to the nearest integer, ties to the even one\<close>
  "rne z =
     (let f = \<lfloor>z\<rfloor>; d = z - of_int f
      in if d < 1 / 2 then f
         else if 1 / 2 < d then f + 1
         else if even f then f else f + 1)"

definition fl_pos :: "rat \<Rightarrow> rat" where
  "fl_pos x = (let q = 2 powi (ilog2 x - 52) in of_int (rne (x / q)) * q)"

definition fl :: "rat \<Rightarrow> rat" where
  "fl x = (if x = 0 then 0 else if x < 0 then - fl_pos (- x) else fl_pos x)"

fun js_add :: "jsnum \<Rightarrow> jsnum \<Rightarrow> jsnum" where
  "js_add (Num a) (Num b) = Num (fl (a + b))"
| "js_add _ _ = NaN"

fun js_sub :: "jsnum \<Rightarrow> jsnum \<Rightarrow> jsnum" where
  "js_sub (Num a) (Num b) = Num (fl (a - b))"
| "js_sub _ _ = NaN"

fun js_mul :: "jsnum \<Rightarrow> jsnum \<Rightarrow> jsnum" where
  "js_mul (Num a) (Num b) = Num (fl (a * b))"
| "js_mul _ _ = NaN"

text \<open>
  The script divides by the constants 16, 125 and 2000 only. A division by zero gives
  an infinity or NaN in JavaScript; the model has no infinity and gives NaN there.
\<close>

fun js_div :: "jsnum \<Rightarrow> jsnum \<Rightarrow> jsnum" where
  "js_div (Num a) (Num b) = (if b = 0 then NaN else Num (fl (a / b)))"
| "js_div _ _ = NaN"

fun js_lt :: "jsnum \<Rightarrow> jsnum \<Rightarrow> bool" where
  "js_lt (Num a) (Num b) = (a < b)"
| "js_lt _ _ = False"

fun Math_min :: "jsnum \<Rightarrow> jsnum \<Rightarrow> jsnum" where
  "Math_min (Num a) (Num b) = Num (min a b)"
| "Math_min _ _ = NaN"

fun Math_floor :: "jsnum \<Rightarrow> jsnum" where
  "Math_floor (Num a) = Num (of_int \<lfloor>a\<rfloor>)"
| "Math_floor NaN = NaN"

fun Math_ceil :: "jsnum \<Rightarrow> jsnum" where
  "Math_ceil (Num a) = Num (of_int \<lceil>a\<rceil>)"
| "Math_ceil NaN = NaN"

text \<open>\<open>!startTime\<close>: true for \<open>null\<close>, for the number 0 and for NaN.\<close>

fun js_not :: "jsnum option \<Rightarrow> bool" where
  "js_not None = True"
| "js_not (Some NaN) = True"
| "js_not (Some (Num a)) = (a = 0)"

section \<open>Strings: parsing and digit grouping\<close>

definition is_digit :: "char \<Rightarrow> bool" where
  "is_digit c = (c \<in> set ''0123456789'')"

text \<open>\<open>targetText.replace(/[^0-9]/g, '')\<close> and \<open>targetText.replace(/[0-9,]/g, '')\<close>.\<close>

definition strip_non_digits :: "string \<Rightarrow> string" where
  "strip_non_digits s = filter is_digit s"

definition strip_digits_commas :: "string \<Rightarrow> string" where
  "strip_digits_commas s = filter (\<lambda>c. \<not> is_digit c \<and> c \<noteq> CHR '','') s"

definition digit_val :: "char \<Rightarrow> nat" where
  "digit_val c = of_char c - 48"

definition dec_value :: "string \<Rightarrow> nat" where
  "dec_value s = foldl (\<lambda>n c. 10 * n + digit_val c) 0 s"

text \<open>
  \<open>parseInt(s, 10)\<close> reads the longest prefix of decimal digits and yields NaN when
  there is none. (Leading white space and a sign, which \<open>parseInt\<close> also accepts,
  cannot occur: the script passes a string of digits only.)
\<close>

definition parseInt :: "string \<Rightarrow> jsnum" where
  "parseInt s =
     (let ds = takeWhile is_digit s
      in if ds = [] then NaN else Num (fl (of_nat (dec_value ds))))"

definition digit_char :: "nat \<Rightarrow> char" where
  "digit_char d = char_of (48 + d)"

fun digits :: "nat \<Rightarrow> string" where
  "digits n = (if n < 10 then [digit_char n] else digits (n div 10) @ [digit_char (n mod 10)])"

declare digits.simps [simp del]

fun group3 :: "nat \<Rightarrow> string" where
  "group3 n =
     (if n < 1000 then digits n
      else group3 (n div 1000) @ '','' @ digits (n mod 1000 div 100)
           @ digits (n mod 100 div 10) @ digits (n mod 10))"

declare group3.simps [simp del]

text \<open>
  \<open>Number.prototype.toLocaleString()\<close> is the host's; it is modelled for the
  \<open>en-US\<close> locale (groups of three digits, separated by commas) and for the values
  the script passes to it: NaN and integers. (Fraction digits are not modelled.)
\<close>

fun toLocaleString :: "jsnum \<Rightarrow> string" where
  "toLocaleString NaN = ''NaN''"
| "toLocaleString (Num a) =
     (if a < 0 then ''-'' @ group3 (nat \<lfloor>- a\<rfloor>) else group3 (nat \<lfloor>a\<rfloor>))"

section \<open>Counter animations\<close>

text \<open>
  A pending animation frame callback is a closure: \<open>updateCount\<close> of \<open>js/main.js\<close>
  with its captured \<open>counter\<close>, \<open>current\<close>, \<open>increment\<close>, \<open>target\<close> and
  \<open>suffix\<close>, or \<open>step\<close> of the second script with its captured \<open>counter\<close>,
  \<open>startTime\<close>, \<open>target\<close> and \<open>suffix\<close>. A counter element is the index of the
  element in the document's list of \<open>.impact-card__number\<close> elements.
\<close>

datatype anim =
    UpdateCount nat jsnum jsnum jsnum string
  | Step nat "jsnum option" jsnum string

definition duration :: jsnum where
  "duration = Num 2000"

text \<open>
  What a frame callback leaves in the counter element: the number it formats with
  \<open>toLocaleString\<close> and the text it appends to it.
\<close>

datatype shown = Shown jsnum string

fun text_of :: "shown \<Rightarrow> string" where
  "text_of (Shown v s) = toLocaleString v @ s"

text \<open>
  One call of a frame callback: what it leaves in the counter element when it returns,
  and the closure it passes to \<open>requestAnimationFrame\<close>, if any. (\<open>step\<close> writes
  the text twice in its last call; the second write is the one that stays.)
\<close>

definition updateCount :: "nat \<Rightarrow> jsnum \<Rightarrow> jsnum \<Rightarrow> jsnum \<Rightarrow> string \<Rightarrow> shown \<times> anim option" where
  "updateCount counter current increment target suffix =
     (let current' = js_add current increment
      in if js_lt current' target
         then (Shown (Math_ceil current') [],
               Some (UpdateCount counter current' increment target suffix))
         else (Shown target suffix, None))"

definition step :: "nat \<Rightarrow> jsnum option \<Rightarrow> jsnum \<Rightarrow> string \<Rightarrow> jsnum \<Rightarrow> shown \<times> anim option" where
  "step counter startTime target suffix timestamp =
     (let startTime' = (case startTime of
                          None \<Rightarrow> timestamp
                        | Some s \<Rightarrow> if js_not (Some s) then timestamp else s);
          progress = Math_min (js_div (js_sub timestamp startTime') duration) (Num 1);
          current = Math_floor (js_mul progress target)
      in if js_lt progress (Num 1)
         then (Shown current [], Some (Step counter (Some startTime') target suffix))
         else (Shown target suffix, None))"

fun callback :: "anim \<Rightarrow> jsnum \<Rightarrow> shown \<times> anim option" where
  "callback (UpdateCount counter current increment target suffix) timestamp =
     updateCount counter current increment target suffix"
| "callback (Step counter startTime target suffix) timestamp =
     step counter startTime target suffix timestamp"

fun anim_counter :: "anim \<Rightarrow> nat" where
  "anim_counter (UpdateCount counter current increment target suffix) = counter"
| "anim_counter (Step counter startTime target suffix) = counter"

text \<open>
  What the observer callbacks do with a counter's text when it becomes visible: the
  closure they hand to \<open>requestAnimationFrame\<close>. The second script also resets the
  text to \<open>0\<close>.
\<close>

definition start_main :: "nat \<Rightarrow> string \<Rightarrow> anim" where
  "start_main counter targetText =
     (let target = parseInt (strip_non_digits targetText);
          suffix = strip_digits_commas targetText;
          increment = js_div target (js_div duration (Num 16))
      in UpdateCount counter (Num 0) increment target suffix)"

definition start_part :: "nat \<Rightarrow> string \<Rightarrow> anim" where
  "start_part counter targetText =
     (let target = parseInt (strip_non_digits targetText);
          suffix = strip_digits_commas targetText
      in Step counter None target suffix)"

text \<open>
  The frames of one counter while the host delivers animation frames with the given
  timestamps: for each run of the callback what it shows, and whether it asked for a
  further frame. The callback runs until it stops asking.
\<close>

fun frames :: "anim option \<Rightarrow> rat list \<Rightarrow> (shown \<times> bool) list" where
  "frames None ts = []"
| "frames (Some a) [] = []"
| "frames (Some a) (t # ts) =
     (case callback a (Num t) of (sh, a') \<Rightarrow> (sh, a' \<noteq> None) # frames a' ts)"

definition finals :: "(shown \<times> bool) list \<Rightarrow> shown list" where
  "finals fs = map fst (filter (\<lambda>f. \<not> snd f) fs)"

text \<open>The closure that still waits for a frame after these timestamps, if any.\<close>

fun pending :: "anim option \<Rightarrow> rat list \<Rightarrow> anim option" where
  "pending None ts = None"
| "pending (Some a) [] = Some a"
| "pending (Some a) (t # ts) = pending (snd (callback a (Num t))) ts"

section \<open>The page\<close>

text \<open>
  The part of the browser's state the two scripts read and write: the elements their
  selectors look up, \<open>localStorage\<close>, the colour scheme preference, the registered
  event listeners, the intersection observers and the requested animation frames.
  An element that a selector does not find is \<open>None\<close>, \<open>False\<close> or missing from
  the list.
\<close>

datatype error = ReferenceError | TypeError

datatype target =
    Window | ThemeToggle | MenuToggle | CloseButton nat | MenuLink nat nat
  | NextButton | PrevButton

datatype handler =
    OnScroll | OnThemeClick | OnMenuToggleClick | OnCloseClick | OnLinkClick
  | OnCarouselClick int

text \<open>
  An element with the id \<open>page-mobile-main-menu\<close>: whether it holds the close button
  the script builds, and the anchors inside it, in document order.
\<close>

record overlay =
  ov_close_button :: bool
  ov_links :: "string list"

text \<open>
  The carousel track: the \<open>offsetWidth\<close> of its first \<open>.carousel-slide\<close>, if it has
  one, and the \<open>scrollBy\<close> requests made so far (the \<open>left\<close> amounts).
\<close>

record carousel_track =
  slide_width :: "int option"
  scroll_requests :: "int list"

record page =
  io_supported :: bool                  \<comment> \<open>\<open>IntersectionObserver\<close> is defined\<close>
  swiper_loaded :: bool                 \<comment> \<open>\<open>typeof Swiper !== 'undefined'\<close>\<close>
  prefers_dark :: bool                  \<comment> \<open>\<open>matchMedia('(prefers-color-scheme: dark)').matches\<close>\<close>
  storage :: "string \<rightharpoonup> string"        \<comment> \<open>\<open>localStorage\<close>\<close>
  scrollY :: rat                        \<comment> \<open>\<open>window.scrollY\<close>\<close>
  data_theme :: "string option"         \<comment> \<open>the root element's \<open>data-theme\<close> attribute\<close>
  body_classes :: "string list"         \<comment> \<open>\<open>document.body.classList\<close>\<close>
  header :: "string list option"        \<comment> \<open>the \<open>classList\<close> of \<open>#page-header-inner\<close>\<close>
  sentinel :: bool                      \<comment> \<open>\<open>#header-observer-sentinel\<close> exists\<close>
  theme_toggle :: bool                  \<comment> \<open>\<open>#theme-toggle\<close> exists\<close>
  menu_toggle :: bool                   \<comment> \<open>\<open>#page-open-mobile-menu\<close> exists\<close>
  desktop_nav :: "string list option"   \<comment> \<open>the anchors of \<open>.navigation .menu__container\<close>\<close>
  overlays :: "overlay list"            \<comment> \<open>the elements with id \<open>page-mobile-main-menu\<close>\<close>
  reveal_els :: "string list list"      \<comment> \<open>the \<open>classList\<close> of each \<open>.scroll-animate\<close>\<close>
  counter_els :: "string list"          \<comment> \<open>the \<open>innerText\<close> of each \<open>.impact-card__number\<close>\<close>
  track :: "carousel_track option"      \<comment> \<open>\<open>.carousel-track\<close>\<close>
  next_button :: bool                   \<comment> \<open>\<open>#testimonial-next\<close> exists\<close>
  prev_button :: bool                   \<comment> \<open>\<open>#testimonial-prev\<close> exists\<close>
  swiper_containers :: nat              \<comment> \<open>elements of class \<open>tm-testimonial\<close> or \<open>tm-logo-carousel\<close>\<close>
  listeners :: "(target \<times> handler) list"
  sticky_observer :: bool               \<comment> \<open>an observer watches the sentinel\<close>
  reveal_observer :: "nat list option"  \<comment> \<open>the targets of the reveal observer, once it exists\<close>
  counter_observer :: "nat list option" \<comment> \<open>the targets of the counter observer, once it exists\<close>
  raf :: "anim list"                    \<comment> \<open>callbacks requested for the next animation frame\<close>
  swipers :: "string list"              \<comment> \<open>the selectors \<open>new Swiper\<close> was called with\<close>
  console :: "string list"              \<comment> \<open>\<open>console.warn\<close> messages\<close>
  revealed :: "nat list"                \<comment> \<open>history: each run of the reveal branch, by target\<close>
  counted :: "nat list"                 \<comment> \<open>history: each run of the counter branch, by target\<close>

subsection \<open>DOM helpers\<close>

definition classList_add :: "string \<Rightarrow> string list \<Rightarrow> string list" where
  "classList_add c cl = (if c \<in> set cl then cl else cl @ [c])"

definition classList_remove :: "string \<Rightarrow> string list \<Rightarrow> string list" where
  "classList_remove c cl = removeAll c cl"

definition classList_toggle :: "string \<Rightarrow> string list \<Rightarrow> string list" where
  "classList_toggle c cl = (if c \<in> set cl then classList_remove c cl else classList_add c cl)"

definition classList_force :: "string \<Rightarrow> bool \<Rightarrow> string list \<Rightarrow> string list" where
  \<comment> \<open>\<open>classList.toggle(c, force)\<close>\<close>
  "classList_force c force cl = (if force then classList_add c cl else classList_remove c cl)"

definition addEventListener :: "target \<Rightarrow> handler \<Rightarrow> page \<Rightarrow> page" where
  "addEventListener t h p = p\<lparr>listeners := listeners p @ [(t, h)]\<rparr>"

definition requestAnimationFrame :: "anim \<Rightarrow> page \<Rightarrow> page" where
  "requestAnimationFrame a p = p\<lparr>raf := raf p @ [a]\<rparr>"

definition observe :: "nat list \<Rightarrow> nat \<Rightarrow> nat list" where
  "observe ts t = (if t \<in> set ts then ts else ts @ [t])"

definition unobserve :: "nat \<Rightarrow> nat list \<Rightarrow> nat list" where
  "unobserve t ts = removeAll t ts"

definition then_init :: "error + page \<Rightarrow> (page \<Rightarrow> error + page) \<Rightarrow> error + page" where
  \<comment> \<open>the next statement runs unless the one before it threw\<close>
  "then_init r f = (case r of Inl e \<Rightarrow> Inl e | Inr p \<Rightarrow> f p)"

section \<open>The controllers\<close>

subsection \<open>Sticky header\<close>

text \<open>\<open>js/main.js\<close>: a scroll listener with the fixed \<open>stickyPoint\<close>.\<close>

definition stickyPoint :: rat where
  "stickyPoint = 10"

definition initStickyHeader_main :: "page \<Rightarrow> error + page" where
  "initStickyHeader_main p =
     (if header p = None then Inr p
      else Inr (addEventListener Window OnScroll p))"

definition onScroll :: "page \<Rightarrow> page" where
  "onScroll p =
     (case header p of
        None \<Rightarrow> p
      | Some cl \<Rightarrow>
          if scrollY p > stickyPoint
          then p\<lparr>header := Some (classList_add ''is-sticky'' cl)\<rparr>
          else p\<lparr>header := Some (classList_remove ''is-sticky'' cl)\<rparr>)"

text \<open>The second script: an intersection observer on a sentinel element.\<close>

definition initStickyHeader_part :: "page \<Rightarrow> error + page" where
  "initStickyHeader_part p =
     (if header p = None \<or> \<not> sentinel p then Inr p
      else if \<not> io_supported p then Inl ReferenceError
      else Inr (p\<lparr>sticky_observer := True\<rparr>))"

definition stickyCallback :: "bool list \<Rightarrow> page \<Rightarrow> error + page" where
  \<comment> \<open>the entries, each by its \<open>isIntersecting\<close>; \<open>entries[0]\<close> of no entry throws\<close>
  "stickyCallback entries p =
     (case entries of
        [] \<Rightarrow> Inl TypeError
      | isIntersecting # _ \<Rightarrow>
          (case header p of
             None \<Rightarrow> Inr p
           | Some cl \<Rightarrow>
               Inr (p\<lparr>header := Some (classList_force ''is-sticky'' (\<not> isIntersecting) cl)\<rparr>)))"

subsection \<open>Theme toggle\<close>

definition applyTheme :: "string \<Rightarrow> page \<Rightarrow> page" where
  "applyTheme theme p =
     p\<lparr>data_theme := Some theme, storage := (storage p)(''theme'' \<mapsto> theme)\<rparr>"

definition initialTheme :: "page \<Rightarrow> string" where
  \<comment> \<open>\<open>storedTheme ? storedTheme : (systemPrefersDark ? 'dark' : 'light')\<close>;
      \<open>null\<close> and the empty string are falsy\<close>
  "initialTheme p =
     (let storedTheme = storage p ''theme'';
          systemPrefersDark = prefers_dark p
      in case storedTheme of
           None \<Rightarrow> (if systemPrefersDark then ''dark'' else ''light'')
         | Some s \<Rightarrow>
             if s \<noteq> [] then s else (if systemPrefersDark then ''dark'' else ''light''))"

definition initThemeToggle :: "page \<Rightarrow> error + page" where
  "initThemeToggle p =
     (if \<not> theme_toggle p then Inr p
      else Inr (addEventListener ThemeToggle OnThemeClick (applyTheme (initialTheme p) p)))"

definition onThemeClick :: "page \<Rightarrow> page" where
  "onThemeClick p =
     (let currentTheme = data_theme p;
          newTheme = (if currentTheme = Some ''dark'' then ''light'' else ''dark'')
      in applyTheme newTheme p)"

subsection \<open>Mobile navigation\<close>

definition desktop_links :: "page \<Rightarrow> string list" where
  \<comment> \<open>the anchors that the copy of \<open>desktopNav.outerHTML\<close> brings into the overlay\<close>
  "desktop_links p = (case desktop_nav p of None \<Rightarrow> [] | Some ls \<Rightarrow> ls)"

definition initMobileNav_main :: "page \<Rightarrow> error + page" where
  "initMobileNav_main p =
     (if \<not> menu_toggle p then Inr p
      else
        let p' =
          (case overlays p of
             [] \<Rightarrow>
               addEventListener (CloseButton 0) OnCloseClick
                 (p\<lparr>overlays := [\<lparr>ov_close_button = True, ov_links = desktop_links p\<rparr>]\<rparr>)
           | mobileMenu # _ \<Rightarrow> p)
        in Inr (addEventListener MenuToggle OnMenuToggleClick p'))"

definition initMobileNav_part :: "page \<Rightarrow> error + page" where
  "initMobileNav_part p =
     (if \<not> menu_toggle p then Inr p
      else
        let p' =
          (case overlays p of
             [] \<Rightarrow>
               fold (\<lambda>i. addEventListener (MenuLink 0 i) OnLinkClick)
                 [0 ..< length (desktop_links p)]
                 (addEventListener (CloseButton 0) OnCloseClick
                    (p\<lparr>overlays := [\<lparr>ov_close_button = True, ov_links = desktop_links p\<rparr>]\<rparr>))
           | mobileMenu # _ \<Rightarrow> p)
        in Inr (addEventListener MenuToggle OnMenuToggleClick p'))"

definition closeMenu :: "page \<Rightarrow> page" where
  "closeMenu p = p\<lparr>body_classes := classList_remove ''mobile-menu-is-open'' (body_classes p)\<rparr>"

definition toggleMenu :: "page \<Rightarrow> page" where
  "toggleMenu p = p\<lparr>body_classes := classList_toggle ''mobile-menu-is-open'' (body_classes p)\<rparr>"

subsection \<open>Scroll-triggered animations\<close>

definition initScrollAnimations :: "page \<Rightarrow> error + page" where
  "initScrollAnimations p =
     (if length (reveal_els p) = 0 then Inr p
      else if \<not> io_supported p then Inl ReferenceError
      else Inr (p\<lparr>reveal_observer := Some (foldl observe [] [0 ..< length (reveal_els p)])\<rparr>))"

text \<open>An entry is its target and its \<open>isIntersecting\<close>.\<close>

definition revealEntry :: "nat \<times> bool \<Rightarrow> page \<Rightarrow> page" where
  "revealEntry entry p =
     (if snd entry
      then p\<lparr>reveal_els := (reveal_els p)[fst entry :=
                 classList_add ''is-animated'' (reveal_els p ! fst entry)],
             reveal_observer := map_option (unobserve (fst entry)) (reveal_observer p),
             revealed := revealed p @ [fst entry]\<rparr>
      else p)"

definition revealCallback :: "(nat \<times> bool) list \<Rightarrow> page \<Rightarrow> page" where
  "revealCallback entries p = fold revealEntry entries p"

subsection \<open>Animated counters\<close>

definition initCounters :: "page \<Rightarrow> error + page" where
  \<comment> \<open>the same in both scripts; their observer callbacks differ\<close>
  "initCounters p =
     (if length (counter_els p) = 0 then Inr p
      else if \<not> io_supported p then Inl ReferenceError
      else Inr (p\<lparr>counter_observer := Some (foldl observe [] [0 ..< length (counter_els p)])\<rparr>))"

definition counterEntry_main :: "nat \<times> bool \<Rightarrow> page \<Rightarrow> page" where
  "counterEntry_main entry p =
     (if snd entry
      then (let counter = fst entry;
                targetText = counter_els p ! counter;
                p1 = requestAnimationFrame (start_main counter targetText) p
            in p1\<lparr>counter_observer := map_option (unobserve counter) (counter_observer p1),
                   counted := counted p1 @ [counter]\<rparr>)
      else p)"

definition counterEntry_part :: "nat \<times> bool \<Rightarrow> page \<Rightarrow> page" where
  "counterEntry_part entry p =
     (if snd entry
      then (let counter = fst entry;
                targetText = counter_els p ! counter;
                p1 = p\<lparr>counter_els := (counter_els p)[counter := ''0'']\<rparr>;
                p2 = requestAnimationFrame (start_part counter targetText) p1
            in p2\<lparr>counter_observer := map_option (unobserve counter) (counter_observer p2),
                   counted := counted p2 @ [counter]\<rparr>)
      else p)"

definition counterCallback_main :: "(nat \<times> bool) list \<Rightarrow> page \<Rightarrow> page" where
  "counterCallback_main entries p = fold counterEntry_main entries p"

definition counterCallback_part :: "(nat \<times> bool) list \<Rightarrow> page \<Rightarrow> page" where
  "counterCallback_part entries p = fold counterEntry_part entries p"

text \<open>One requested frame callback runs: it sets the counter's text and may ask again.\<close>

definition run_anim :: "rat \<Rightarrow> anim \<Rightarrow> page \<Rightarrow> page" where
  "run_anim timestamp a p =
     (case callback a (Num timestamp) of
        (sh, None) \<Rightarrow> p\<lparr>counter_els := (counter_els p)[anim_counter a := text_of sh]\<rparr>
      | (sh, Some a') \<Rightarrow>
          requestAnimationFrame a'
            (p\<lparr>counter_els := (counter_els p)[anim_counter a := text_of sh]\<rparr>))"

subsection \<open>Carousels\<close>

definition initCarousels :: "page \<Rightarrow> error + page" where
  \<comment> \<open>\<open>js/main.js\<close>: two Swiper widgets\<close>
  "initCarousels p =
     (if \<not> swiper_loaded p
      then Inr (p\<lparr>console := console p @
                  [''Swiper library is not loaded. Carousels will not work.'']\<rparr>)
      else Inr (p\<lparr>swipers := swipers p @ [''.tm-testimonial'', ''.tm-logo-carousel'']\<rparr>))"

definition initTestimonialCarousel :: "page \<Rightarrow> error + page" where
  \<comment> \<open>the second script: next and previous buttons of a scrolling track\<close>
  "initTestimonialCarousel p =
     (if track p = None \<or> \<not> next_button p \<or> \<not> prev_button p then Inr p
      else Inr (addEventListener PrevButton (OnCarouselClick (- 1))
                  (addEventListener NextButton (OnCarouselClick 1) p)))"

definition scrollCarousel :: "int \<Rightarrow> page \<Rightarrow> page" where
  "scrollCarousel direction p =
     (case track p of
        None \<Rightarrow> p
      | Some tr \<Rightarrow>
          (case slide_width tr of
             None \<Rightarrow> p
           | Some w \<Rightarrow>
               p\<lparr>track := Some (tr\<lparr>scroll_requests := scroll_requests tr @ [w * direction]\<rparr>)\<rparr>))"

section \<open>The two scripts and the host's events\<close>

datatype script = Main_js | Part_000

definition load_main :: "page \<Rightarrow> error + page" where
  \<comment> \<open>the \<open>DOMContentLoaded\<close> listener of \<open>js/main.js\<close>\<close>
  "load_main p =
     then_init (then_init (then_init (then_init (then_init
       (initStickyHeader_main p) initThemeToggle) initMobileNav_main)
       initScrollAnimations) initCounters) initCarousels"

definition load_part :: "page \<Rightarrow> error + page" where
  \<comment> \<open>the \<open>DOMContentLoaded\<close> listener of the second script\<close>
  "load_part p =
     then_init (then_init (then_init (then_init (then_init
       (initStickyHeader_part p) initThemeToggle) initMobileNav_part)
       initScrollAnimations) initCounters) initTestimonialCarousel"

fun load :: "script \<Rightarrow> page \<Rightarrow> error + page" where
  "load Main_js p = load_main p"
| "load Part_000 p = load_part p"

fun run_handler :: "handler \<Rightarrow> page \<Rightarrow> page" where
  "run_handler OnScroll p = onScroll p"
| "run_handler OnThemeClick p = onThemeClick p"
| "run_handler OnMenuToggleClick p = toggleMenu p"
| "run_handler OnCloseClick p = closeMenu p"
| "run_handler OnLinkClick p = closeMenu p"
| "run_handler (OnCarouselClick direction) p = scrollCarousel direction p"

definition dispatch :: "target \<Rightarrow> page \<Rightarrow> page" where
  \<comment> \<open>an event on a target runs the target's listeners in the order of registration\<close>
  "dispatch t p = fold run_handler (map snd (filter (\<lambda>l. fst l = t) (listeners p))) p"

text \<open>
  The host's events. An intersection notification carries the elements that intersect
  at that moment; the host reports each target an observer still observes once, with
  its \<open>isIntersecting\<close>. An animation frame runs the callbacks requested before it.
\<close>

datatype event =
    Scroll rat
  | Click target
  | IntersectSentinel bool
  | IntersectReveal "nat list"
  | IntersectCounters "nat list"
  | AnimationFrame rat

definition entries_for :: "nat list option \<Rightarrow> nat list \<Rightarrow> (nat \<times> bool) list" where
  "entries_for observed visible =
     (case observed of None \<Rightarrow> [] | Some ts \<Rightarrow> map (\<lambda>t. (t, t \<in> set visible)) ts)"

fun fire :: "script \<Rightarrow> event \<Rightarrow> page \<Rightarrow> page" where
  "fire sc (Scroll y) p = dispatch Window (p\<lparr>scrollY := y\<rparr>)"
| "fire sc (Click t) p = dispatch t p"
| "fire sc (IntersectSentinel b) p =
     (if sticky_observer p
      then (case stickyCallback [b] p of Inl e \<Rightarrow> p | Inr p' \<Rightarrow> p')
      else p)"
| "fire sc (IntersectReveal visible) p =
     revealCallback (entries_for (reveal_observer p) visible) p"
| "fire Main_js (IntersectCounters visible) p =
     counterCallback_main (entries_for (counter_observer p) visible) p"
| "fire Part_000 (IntersectCounters visible) p =
     counterCallback_part (entries_for (counter_observer p) visible) p"
| "fire sc (AnimationFrame t) p = fold (run_anim t) (raf p) (p\<lparr>raf := []\<rparr>)"

definition run :: "script \<Rightarrow> event list \<Rightarrow> page \<Rightarrow> page" where
  "run sc evs p = fold (fire sc) evs p"

text \<open>A document with none of the elements the scripts look for, before any script ran.\<close>

definition blank :: page where
  "blank =
     \<lparr>io_supported = True, swiper_loaded = True, prefers_dark = False,
      storage = Map.empty, scrollY = 0, data_theme = None, body_classes = [],
      header = None, sentinel = False, theme_toggle = False, menu_toggle = False,
      desktop_nav = None, overlays = [], reveal_els = [], counter_els = [],
      track = None, next_button = False, prev_button = False, swiper_containers = 0,
      listeners = [], sticky_observer = False, reveal_observer = None,
      counter_observer = None, raf = [], swipers = [], console = [],
      revealed = [], counted = []\<rparr>"

section \<open>Notions used in the statements and proofs\<close>

subsection \<open>Reading a page\<close>

text \<open>The theme an initializer applied: the root element's attribute after it returned.\<close>

definition applied_theme :: "error + page \<Rightarrow> string option" where
  "applied_theme r = (case r of Inl e \<Rightarrow> None | Inr p \<Rightarrow> data_theme p)"

text \<open>The listeners registered on a target, in the order of registration.\<close>

definition handlers_of :: "target \<Rightarrow> page \<Rightarrow> handler list" where
  "handlers_of t p = map snd (filter (\<lambda>l. fst l = t) (listeners p))"

text \<open>The body carries the class that shows the overlay.\<close>

definition menu_open :: "page \<Rightarrow> bool" where
  "menu_open p = (''mobile-menu-is-open'' \<in> set (body_classes p))"

text \<open>The mobile navigation controller of either script.\<close>

fun initMobileNav :: "script \<Rightarrow> page \<Rightarrow> error + page" where
  "initMobileNav Main_js p = initMobileNav_main p"
| "initMobileNav Part_000 p = initMobileNav_part p"

text \<open>The page before a script ran: nothing registered, observed, requested or recorded.\<close>

definition fresh :: "page \<Rightarrow> bool" where
  "fresh p =
     (listeners p = [] \<and> \<not> sticky_observer p \<and> reveal_observer p = None
      \<and> counter_observer p = None \<and> raf p = [] \<and> revealed p = [] \<and> counted p = [])"

text \<open>
  What the theme controller reads and writes: the toggle button and the colour scheme
  preference, the root element's attribute, the stored value, and the listeners on the
  button.
\<close>

definition theme_view ::
  "page \<Rightarrow> (bool \<times> bool) \<times> string option \<times> string option \<times> handler list" where
  "theme_view p =
     ((theme_toggle p, prefers_dark p), data_theme p, storage p ''theme'',
      handlers_of ThemeToggle p)"

text \<open>
  The invariant of the theme: the stored value is the attribute; with \<open>d\<close>, the
  attribute is one of the two themes.
\<close>

definition theme_inv :: "bool \<Rightarrow> page \<Rightarrow> bool" where
  "theme_inv d p =
     (storage p ''theme'' = data_theme p
      \<and> (d \<longrightarrow> data_theme p = Some ''light'' \<or> data_theme p = Some ''dark''))"

subsection \<open>Observers\<close>

text \<open>An observer that exists and has the target among the ones it observes.\<close>

definition observes :: "nat list option \<Rightarrow> nat \<Rightarrow> bool" where
  "observes observer t = (case observer of None \<Rightarrow> False | Some ts \<Rightarrow> t \<in> set ts)"

text \<open>
  The invariant of an observer and the record of the targets its callback processed:
  no target was processed twice, and no processed target is still observed.
\<close>

definition one_shot :: "nat list option \<Rightarrow> nat list \<Rightarrow> bool" where
  "one_shot observer history =
     (case observer of None \<Rightarrow> history = [] | Some ts \<Rightarrow> distinct (ts @ history))"

definition one_shot_page :: "page \<Rightarrow> bool" where
  "one_shot_page p =
     (one_shot (reveal_observer p) (revealed p) \<and> one_shot (counter_observer p) (counted p))"

text \<open>
  The fields the observers work on, taken together: what an event leaves alone is one
  equation about \<open>obs_view\<close>, what an initializer leaves alone one about \<open>obs_els\<close>.
\<close>

definition obs_view :: "page \<Rightarrow> (nat list option \<times> nat list) \<times> (nat list option \<times> nat list)" where
  "obs_view p = ((reveal_observer p, revealed p), (counter_observer p, counted p))"

definition obs_els ::
  "page \<Rightarrow> ((nat list option \<times> nat list) \<times> (nat list option \<times> nat list))
            \<times> string list list \<times> string list" where
  "obs_els p = (obs_view p, reveal_els p, counter_els p)"

subsection \<open>Frames\<close>

text \<open>What a closure shows in its last frame: the target, followed by the suffix.\<close>

fun final_of :: "anim \<Rightarrow> shown" where
  "final_of (UpdateCount counter current increment target suffix) = Shown target suffix"
| "final_of (Step counter startTime target suffix) = Shown target suffix"

text \<open>
  The frames count up: each frame that asks for a further frame shows an integer with
  no suffix, related by \<open>rel\<close> to the one before it (to \<open>lo\<close> at the start) and
  within the bound \<open>ok\<close>; a frame that does not ask again shows \<open>fin\<close> and is the last.
\<close>

fun counts_up ::
  "(rat \<Rightarrow> rat \<Rightarrow> bool) \<Rightarrow> (rat \<Rightarrow> bool) \<Rightarrow> rat \<Rightarrow> shown \<Rightarrow> (shown \<times> bool) list \<Rightarrow> bool" where
  "counts_up rel ok lo fin [] = True"
| "counts_up rel ok lo fin ((Shown NaN s, again) # fs) =
     (if again then False else Shown NaN s = fin \<and> fs = [])"
| "counts_up rel ok lo fin ((Shown (Num a) s, again) # fs) =
     (if again
      then s = [] \<and> of_int \<lfloor>a\<rfloor> = a \<and> rel lo a \<and> ok a \<and> counts_up rel ok a fin fs
      else Shown (Num a) s = fin \<and> fs = [])"

text \<open>The progress \<open>step\<close> computes at timestamp \<open>t\<close> after it started at \<open>s\<close>.\<close>

definition progress :: "rat \<Rightarrow> rat \<Rightarrow> rat" where
  "progress s t = min (fl (fl (t - s) / 2000)) 1"

text \<open>
  \<open>updateCount\<close> does not read the timestamp: the frames of its closures depend on
  the number of frames only, and \<open>updates\<close> computes them from that number.
\<close>

fun updates :: "nat \<Rightarrow> anim option \<Rightarrow> (shown \<times> bool) list" where
  "updates n None = []"
| "updates 0 (Some a) = []"
| "updates (Suc n) (Some a) = (case callback a NaN of (sh, a') \<Rightarrow> (sh, a' \<noteq> None) # updates n a')"

text \<open>
  The integers \<open>js/main.js\<close> shows for the target 1234, frame by frame: the ceilings
  of the rounded sums of the increment \<open>1234 / 125\<close>.
\<close>

definition values_1234 :: "int list" where
  "values_1234 =
     [10, 20, 30, 40, 50, 60, 70, 79, 89, 99, 109, 119, 129, 139,
      149, 158, 168, 178, 188, 198, 208, 218, 228, 237, 247, 257, 267, 277,
      287, 297, 307, 316, 326, 336, 346, 356, 366, 376, 386, 395, 405, 415,
      425, 435, 445, 455, 464, 474, 484, 494, 504, 514, 524, 534, 543, 553,
      563, 573, 583, 593, 603, 613, 622, 632, 642, 652, 662, 672, 682, 692,
      701, 711, 721, 731, 741, 751, 761, 771, 780, 790, 800, 810, 820, 830,
      840, 849, 859, 869, 879, 889, 899, 909, 919, 928, 938, 948, 958, 968,
      978, 988, 998, 1007, 1017, 1027, 1037, 1047, 1057, 1067, 1077, 1086, 1096, 1106,
      1116, 1126, 1136, 1146, 1156, 1165, 1175, 1185, 1195, 1205, 1215, 1225, 1234]"

subsection \<open>Example pages\<close>

text \<open>A page with the theme toggle and a stored theme.\<close>

definition themed :: "bool \<Rightarrow> string \<Rightarrow> page" where
  "themed dark s = blank\<lparr>theme_toggle := True, prefers_dark := dark, storage := [''theme'' \<mapsto> s]\<rparr>"

text \<open>That page after \<open>js/main.js\<close> loaded, when the stored theme is not empty.\<close>

definition themed_loaded :: "bool \<Rightarrow> string \<Rightarrow> page" where
  "themed_loaded dark s =
     themed dark s\<lparr>data_theme := Some s, listeners := [(ThemeToggle, OnThemeClick)],
                   swipers := [''.tm-testimonial'', ''.tm-logo-carousel'']\<rparr>"

text \<open>
  A page with the open control and a desktop navigation of two links, and the same
  page after \<open>initMobileNav\<close> of \<open>js/main.js\<close> and of the second script.
\<close>

definition with_menu :: page where
  "with_menu = blank\<lparr>menu_toggle := True, desktop_nav := Some [''Home'', ''About'']\<rparr>"

definition with_menu_main :: page where
  "with_menu_main =
     with_menu\<lparr>overlays := [\<lparr>ov_close_button = True, ov_links = [''Home'', ''About'']\<rparr>],
               listeners := [(CloseButton 0, OnCloseClick), (MenuToggle, OnMenuToggleClick)]\<rparr>"

definition with_menu_part :: page where
  "with_menu_part =
     with_menu\<lparr>overlays := [\<lparr>ov_close_button = True, ov_links = [''Home'', ''About'']\<rparr>],
               listeners := [(CloseButton 0, OnCloseClick), (MenuLink 0 0, OnLinkClick),
                             (MenuLink 0 1, OnLinkClick), (MenuToggle, OnMenuToggleClick)]\<rparr>"

text \<open>A page with one counter whose text has no digit, after \<open>initCounters\<close>.\<close>

definition not_a_number :: page where
  "not_a_number = blank\<lparr>counter_els := [''N/A''], counter_observer := Some [0]\<rparr>"

text \<open>A page with one reveal target and one counter, before and after the second script.\<close>

definition two_targets :: page where
  "two_targets = blank\<lparr>reveal_els := [[''scroll-animate'']], counter_els := [''1,234+'']\<rparr>"

definition two_targets_loaded :: page where
  "two_targets_loaded = two_targets\<lparr>reveal_observer := Some [0], counter_observer := Some [0]\<rparr>"

section \<open>Lemmas\<close>

subsection \<open>The initial theme\<close>

lemma data_theme_applyTheme: "data_theme (applyTheme th p) = Some th"
  by (simp add: applyTheme_def)

subsection \<open>Clicks\<close>

lemma dispatch_handlers: "dispatch t p = fold run_handler (handlers_of t p) p"
  by (simp add: dispatch_def handlers_of_def)

lemma dispatch_one: "handlers_of t p = [h] \<Longrightarrow> dispatch t p = run_handler h p"
  by (simp add: dispatch_handlers)

lemma listeners_run_handler: "listeners (run_handler h p) = listeners p"
  by (cases h)
    (simp_all add: onScroll_def onThemeClick_def applyTheme_def toggleMenu_def closeMenu_def
      scrollCarousel_def Let_def split: option.splits)

lemma handlers_of_run_handler: "handlers_of t (run_handler h p) = handlers_of t p"
  by (simp add: handlers_of_def listeners_run_handler)

subsection \<open>Theme toggling\<close>

lemma onThemeClick_stored: "storage (onThemeClick p) ''theme'' = data_theme (onThemeClick p)"
  by (simp add: onThemeClick_def applyTheme_def Let_def)

lemma onThemeClick_twice:
  "data_theme p = Some ''light'' \<or> data_theme p = Some ''dark''
   \<Longrightarrow> data_theme (onThemeClick (onThemeClick p)) = data_theme p"
  by (auto simp add: onThemeClick_def applyTheme_def Let_def)

subsection \<open>Sticky header, threshold strategy\<close>

lemma initStickyHeader_main_handlers:
  "header p = Some cl \<Longrightarrow> listeners p = [] \<Longrightarrow> initStickyHeader_main p = Inr p'
   \<Longrightarrow> header p' = Some cl \<and> handlers_of Window p' = [OnScroll]"
  by (auto simp add: initStickyHeader_main_def addEventListener_def handlers_of_def)

lemma onScroll_sticky:
  "header p = Some cl
   \<Longrightarrow> \<exists>cl'. header (onScroll p) = Some cl'
         \<and> (''is-sticky'' \<in> set cl') = (stickyPoint < scrollY p)"
  by (simp add: onScroll_def classList_add_def classList_remove_def)

subsection \<open>Mobile navigation\<close>

lemma overlays_run_handler: "overlays (run_handler h p) = overlays p"
  by (cases h)
    (simp_all add: onScroll_def onThemeClick_def applyTheme_def toggleMenu_def closeMenu_def
      scrollCarousel_def Let_def split: option.splits)

lemma overlays_fold_run_handler: "overlays (fold run_handler hs p) = overlays p"
  by (induction hs arbitrary: p) (simp_all add: overlays_run_handler)

lemma overlays_revealEntry: "overlays (revealEntry e p) = overlays p"
  by (simp add: revealEntry_def)

lemma overlays_counterEntry_main: "overlays (counterEntry_main e p) = overlays p"
  by (simp add: counterEntry_main_def requestAnimationFrame_def Let_def)

lemma overlays_counterEntry_part: "overlays (counterEntry_part e p) = overlays p"
  by (simp add: counterEntry_part_def requestAnimationFrame_def Let_def)

lemma overlays_run_anim: "overlays (run_anim t a p) = overlays p"
  by (simp add: run_anim_def requestAnimationFrame_def split: prod.splits option.splits)

lemma overlays_fold:
  assumes "\<And>x q. overlays (f x q) = overlays q"
  shows "overlays (fold f xs p) = overlays p"
  by (induction xs arbitrary: p) (simp_all add: assms)

lemma overlays_fire: "overlays (fire sc ev p) = overlays p"
proof (cases ev)
  case (Scroll y)
  then show ?thesis
    by (simp add: dispatch_def overlays_fold_run_handler)
next
  case (Click t)
  then show ?thesis
    by (simp add: dispatch_def overlays_fold_run_handler)
next
  case (IntersectSentinel b)
  then show ?thesis
    by (simp add: stickyCallback_def split: option.splits)
next
  case (IntersectReveal vis)
  then show ?thesis
    by (simp add: revealCallback_def overlays_fold [OF overlays_revealEntry])
next
  case (IntersectCounters vis)
  then show ?thesis
    by (cases sc)
      (simp_all add: counterCallback_main_def counterCallback_part_def
        overlays_fold [OF overlays_counterEntry_main]
        overlays_fold [OF overlays_counterEntry_part])
next
  case (AnimationFrame t)
  then show ?thesis
    by (simp add: overlays_fold [OF overlays_run_anim])
qed

lemma overlays_run: "overlays (run sc evs p) = overlays p"
  unfolding run_def by (induction evs arbitrary: p) (simp_all add: overlays_fire)

lemma listeners_fold:
  assumes "\<And>x q. listeners (f x q) = listeners q"
  shows "listeners (fold f xs p) = listeners p"
  by (induction xs arbitrary: p) (simp_all add: assms)

lemma listeners_revealEntry: "listeners (revealEntry e p) = listeners p"
  by (simp add: revealEntry_def)

lemma listeners_counterEntry_main: "listeners (counterEntry_main e p) = listeners p"
  by (simp add: counterEntry_main_def requestAnimationFrame_def Let_def)

lemma listeners_counterEntry_part: "listeners (counterEntry_part e p) = listeners p"
  by (simp add: counterEntry_part_def requestAnimationFrame_def Let_def)

lemma listeners_run_anim: "listeners (run_anim t a p) = listeners p"
  by (simp add: run_anim_def requestAnimationFrame_def split: prod.splits option.splits)

lemma listeners_fire: "listeners (fire sc ev p) = listeners p"
proof (cases ev)
  case (Scroll y)
  then show ?thesis
    by (simp add: dispatch_def listeners_fold [OF listeners_run_handler])
next
  case (Click t)
  then show ?thesis
    by (simp add: dispatch_def listeners_fold [OF listeners_run_handler])
next
  case (IntersectSentinel b)
  then show ?thesis
    by (simp add: stickyCallback_def split: option.splits)
next
  case (IntersectReveal vis)
  then show ?thesis
    by (simp add: revealCallback_def listeners_fold [OF listeners_revealEntry])
next
  case (IntersectCounters vis)
  then show ?thesis
    by (cases sc)
      (simp_all add: counterCallback_main_def counterCallback_part_def
        listeners_fold [OF listeners_counterEntry_main]
        listeners_fold [OF listeners_counterEntry_part])
next
  case (AnimationFrame t)
  then show ?thesis
    by (simp add: listeners_fold [OF listeners_run_anim])
qed

lemma listeners_run: "listeners (run sc evs p) = listeners p"
  unfolding run_def by (induction evs arbitrary: p) (simp_all add: listeners_fire)

lemma handlers_of_run: "handlers_of t (run sc evs p) = handlers_of t p"
  by (simp add: handlers_of_def listeners_run)

lemma listeners_add_links:
  "listeners (fold (\<lambda>i. addEventListener (f i) h) is q)
     = listeners q @ map (\<lambda>i. (f i, h)) is"
  by (induction "is" arbitrary: q) (simp_all add: addEventListener_def)

lemma filter_link_upt:
  "i < n \<Longrightarrow> filter (\<lambda>l. fst l = MenuLink k i) (map (\<lambda>j. (MenuLink k j, h)) [0 ..< n])
              = [(MenuLink k i, h)]"
proof (induction n)
  case 0
  then show ?case by simp
next
  case (Suc n)
  have none: "filter (\<lambda>l. fst l = MenuLink k i) (map (\<lambda>j. (MenuLink k j, h)) [0 ..< m]) = []"
    if "m \<le> i" for m
    using that by (induction m) simp_all
  show ?case
  proof (cases "i = n")
    case True
    then show ?thesis using none [of n] by simp
  next
    case False
    with Suc have "i < n" by simp
    with Suc.IH False show ?thesis by simp
  qed
qed

lemma toggleMenu_flips: "menu_open (toggleMenu p) = (\<not> menu_open p)"
  by (simp add: menu_open_def toggleMenu_def classList_toggle_def classList_add_def
      classList_remove_def)

lemma closeMenu_closes: "\<not> menu_open (closeMenu p)"
  by (simp add: menu_open_def closeMenu_def classList_remove_def)

lemma initMobileNav_overlays:
  "menu_toggle p \<Longrightarrow> initMobileNav sc p = Inr p'
   \<Longrightarrow> overlays p' = (if overlays p = []
                      then [\<lparr>ov_close_button = True, ov_links = desktop_links p\<rparr>]
                      else overlays p)"
  by (cases sc; cases "overlays p")
    (auto simp add: initMobileNav_main_def initMobileNav_part_def addEventListener_def
      overlays_fold Let_def)

lemma initMobileNav_toggle_handlers:
  "menu_toggle p \<Longrightarrow> listeners p = [] \<Longrightarrow> initMobileNav sc p = Inr p'
   \<Longrightarrow> handlers_of MenuToggle p' = [OnMenuToggleClick]"
  by (cases sc; cases "overlays p")
    (auto simp add: initMobileNav_main_def initMobileNav_part_def addEventListener_def
      listeners_add_links handlers_of_def Let_def)

lemma initMobileNav_with_menu:
  "initMobileNav_main with_menu = Inr with_menu_main"
  "initMobileNav_part with_menu = Inr with_menu_part"
  by (simp_all add: with_menu_def with_menu_main_def with_menu_part_def blank_def
      initMobileNav_main_def initMobileNav_part_def addEventListener_def desktop_links_def
      upt_rec)

lemma fl_0: "fl 0 = 0"
  by (simp add: fl_def)

lemma fl_1: "fl 1 = 1"
  by code_simp

lemma fl_2000: "fl 2000 = 2000"
  by code_simp

lemma start_NA:
  "start_part 0 ''N/A'' = Step 0 None NaN ''N/A''"
  "start_main 0 ''N/A'' = UpdateCount 0 (Num 0) NaN NaN ''N/A''"
  by (simp_all add: start_part_def start_main_def parseInt_def strip_non_digits_def
      strip_digits_commas_def is_digit_def)

subsection \<open>One-shot observers\<close>

lemma obs_view_fold:
  assumes "\<And>x q. obs_view (f x q) = obs_view q"
  shows "obs_view (fold f xs p) = obs_view p"
  by (induction xs arbitrary: p) (simp_all add: assms)

lemma obs_view_run_handler: "obs_view (run_handler h p) = obs_view p"
  by (cases h)
    (simp_all add: obs_view_def onScroll_def onThemeClick_def applyTheme_def toggleMenu_def
      closeMenu_def scrollCarousel_def Let_def split: option.splits)

lemma obs_view_run_anim: "obs_view (run_anim t a p) = obs_view p"
  by (simp add: obs_view_def run_anim_def requestAnimationFrame_def
      split: prod.splits option.splits)

lemma unobserve_filter: "unobserve t = filter (\<lambda>x. x \<noteq> t)"
  by (rule ext) (auto simp add: unobserve_def removeAll_filter_not_eq intro: filter_cong)

lemma revealEntry_obs:
  "reveal_observer (revealEntry (t, b) p)
     = (if b then map_option (filter (\<lambda>x. x \<noteq> t)) (reveal_observer p) else reveal_observer p)"
  "revealed (revealEntry (t, b) p) = (if b then revealed p @ [t] else revealed p)"
  "counter_observer (revealEntry (t, b) p) = counter_observer p"
  "counted (revealEntry (t, b) p) = counted p"
  by (simp_all add: revealEntry_def unobserve_filter)

lemma counterEntry_main_obs:
  "counter_observer (counterEntry_main (t, b) p)
     = (if b then map_option (filter (\<lambda>x. x \<noteq> t)) (counter_observer p) else counter_observer p)"
  "counted (counterEntry_main (t, b) p) = (if b then counted p @ [t] else counted p)"
  "reveal_observer (counterEntry_main (t, b) p) = reveal_observer p"
  "revealed (counterEntry_main (t, b) p) = revealed p"
  by (simp_all add: counterEntry_main_def requestAnimationFrame_def unobserve_filter Let_def)

lemma counterEntry_part_obs:
  "counter_observer (counterEntry_part (t, b) p)
     = (if b then map_option (filter (\<lambda>x. x \<noteq> t)) (counter_observer p) else counter_observer p)"
  "counted (counterEntry_part (t, b) p) = (if b then counted p @ [t] else counted p)"
  "reveal_observer (counterEntry_part (t, b) p) = reveal_observer p"
  "revealed (counterEntry_part (t, b) p) = revealed p"
  by (simp_all add: counterEntry_part_def requestAnimationFrame_def unobserve_filter Let_def)

text \<open>
  A callback that removes the target of each intersecting entry from its observer and
  records it: what a whole batch of entries does to the observer and to the record.
\<close>

lemma batch_obs:
  assumes "\<And>t b q. obs (f (t, b) q) = (if b then map_option (filter (\<lambda>x. x \<noteq> t)) (obs q) else obs q)"
    and "\<And>t b q. hist (f (t, b) q) = (if b then hist q @ [t] else hist q)"
  shows "obs (fold f (map (\<lambda>t. (t, t \<in> V)) es) p)
           = map_option (filter (\<lambda>t. \<not> (t \<in> set es \<and> t \<in> V))) (obs p)
       \<and> hist (fold f (map (\<lambda>t. (t, t \<in> V)) es) p) = hist p @ filter (\<lambda>t. t \<in> V) es"
proof (induction es arbitrary: p)
  case Nil
  then show ?case by (simp add: option.map_ident)
next
  case (Cons e es)
  show ?case
    by (cases "obs p")
      (auto simp add: Cons.IH assms intro: filter_cong)
qed

lemma batch_other:
  assumes "\<And>e q. g (f e q) = g q"
  shows "g (fold f es p) = g p"
  by (induction es arbitrary: p) (simp_all add: assms)

lemma filter_observed: "filter (\<lambda>t. t \<in> set ts \<longrightarrow> t \<notin> V) ts = filter (\<lambda>t. t \<notin> V) ts"
  by (auto intro: filter_cong)

lemma fire_reveal_obs:
  "reveal_observer (fire sc (IntersectReveal vis) p)
     = map_option (filter (\<lambda>t. t \<notin> set vis)) (reveal_observer p)"
  "revealed (fire sc (IntersectReveal vis) p)
     = revealed p @ (case reveal_observer p of None \<Rightarrow> [] | Some ts \<Rightarrow> filter (\<lambda>t. t \<in> set vis) ts)"
  "counter_observer (fire sc (IntersectReveal vis) p) = counter_observer p"
  "counted (fire sc (IntersectReveal vis) p) = counted p"
proof -
  note b = batch_obs [of reveal_observer revealEntry revealed, OF revealEntry_obs(1,2)]
  show "reveal_observer (fire sc (IntersectReveal vis) p)
     = map_option (filter (\<lambda>t. t \<notin> set vis)) (reveal_observer p)"
    by (cases "reveal_observer p")
      (simp_all add: revealCallback_def entries_for_def b filter_observed)
  show "revealed (fire sc (IntersectReveal vis) p)
     = revealed p @ (case reveal_observer p of None \<Rightarrow> [] | Some ts \<Rightarrow> filter (\<lambda>t. t \<in> set vis) ts)"
    by (cases "reveal_observer p")
      (simp_all add: revealCallback_def entries_for_def b)
  show "counter_observer (fire sc (IntersectReveal vis) p) = counter_observer p"
    by (simp add: revealCallback_def batch_other [of counter_observer revealEntry]
        revealEntry_obs split_paired_all)
  show "counted (fire sc (IntersectReveal vis) p) = counted p"
    by (simp add: revealCallback_def batch_other [of counted revealEntry]
        revealEntry_obs split_paired_all)
qed

lemma fire_counters_obs:
  "counter_observer (fire sc (IntersectCounters vis) p)
     = map_option (filter (\<lambda>t. t \<notin> set vis)) (counter_observer p)"
  "counted (fire sc (IntersectCounters vis) p)
     = counted p @ (case counter_observer p of None \<Rightarrow> [] | Some ts \<Rightarrow> filter (\<lambda>t. t \<in> set vis) ts)"
  "reveal_observer (fire sc (IntersectCounters vis) p) = reveal_observer p"
  "revealed (fire sc (IntersectCounters vis) p) = revealed p"
proof -
  note m = batch_obs [of counter_observer counterEntry_main counted, OF counterEntry_main_obs(1,2)]
  note n = batch_obs [of counter_observer counterEntry_part counted, OF counterEntry_part_obs(1,2)]
  show "counter_observer (fire sc (IntersectCounters vis) p)
     = map_option (filter (\<lambda>t. t \<notin> set vis)) (counter_observer p)"
    by (cases sc; cases "counter_observer p")
      (simp_all add: counterCallback_main_def counterCallback_part_def entries_for_def m n
        filter_observed)
  show "counted (fire sc (IntersectCounters vis) p)
     = counted p @ (case counter_observer p of None \<Rightarrow> [] | Some ts \<Rightarrow> filter (\<lambda>t. t \<in> set vis) ts)"
    by (cases sc; cases "counter_observer p")
      (simp_all add: counterCallback_main_def counterCallback_part_def entries_for_def m n)
  show "reveal_observer (fire sc (IntersectCounters vis) p) = reveal_observer p"
    by (cases sc)
      (simp_all add: counterCallback_main_def counterCallback_part_def
        batch_other [of reveal_observer counterEntry_main]
        batch_other [of reveal_observer counterEntry_part]
        counterEntry_main_obs counterEntry_part_obs split_paired_all)
  show "revealed (fire sc (IntersectCounters vis) p) = revealed p"
    by (cases sc)
      (simp_all add: counterCallback_main_def counterCallback_part_def
        batch_other [of revealed counterEntry_main]
        batch_other [of revealed counterEntry_part]
        counterEntry_main_obs counterEntry_part_obs split_paired_all)
qed

lemma fire_other_obs:
  "(\<forall>vis. ev \<noteq> IntersectReveal vis \<and> ev \<noteq> IntersectCounters vis)
   \<Longrightarrow> obs_view (fire sc ev p) = obs_view p"
proof (cases ev)
  case (Scroll y)
  have "obs_view (p\<lparr>scrollY := y\<rparr>) = obs_view p"
    by (simp add: obs_view_def)
  with Scroll show ?thesis
    by (simp add: dispatch_def obs_view_fold [OF obs_view_run_handler])
next
  case (Click t)
  then show ?thesis
    by (simp add: dispatch_def obs_view_fold [OF obs_view_run_handler])
next
  case (IntersectSentinel b)
  then show ?thesis
    by (simp add: stickyCallback_def obs_view_def split: option.splits)
next
  case (AnimationFrame t)
  have "obs_view (p\<lparr>raf := []\<rparr>) = obs_view p"
    by (simp add: obs_view_def)
  with AnimationFrame show ?thesis
    by (simp add: obs_view_fold [OF obs_view_run_anim])
qed simp_all

lemma one_shot_filter:
  "one_shot obs h
   \<Longrightarrow> one_shot (map_option (filter (\<lambda>t. t \<notin> V)) obs)
         (h @ (case obs of None \<Rightarrow> [] | Some ts \<Rightarrow> filter (\<lambda>t. t \<in> V) ts))"
  by (cases obs) (auto simp add: one_shot_def)

lemma one_shot_fire: "one_shot_page p \<Longrightarrow> one_shot_page (fire sc ev p)"
proof (cases "\<exists>vis. ev = IntersectReveal vis \<or> ev = IntersectCounters vis")
  case True
  assume "one_shot_page p"
  with True show ?thesis
    unfolding one_shot_page_def
    by (auto simp only: fire_reveal_obs fire_counters_obs intro: one_shot_filter)
next
  case False
  assume "one_shot_page p"
  moreover from False have "obs_view (fire sc ev p) = obs_view p"
    by (intro fire_other_obs) simp
  ultimately show ?thesis
    by (simp add: one_shot_page_def obs_view_def)
qed

lemma one_shot_run: "one_shot_page p \<Longrightarrow> one_shot_page (run sc evs p)"
  unfolding run_def by (induction evs arbitrary: p) (simp_all add: one_shot_fire)

lemma foldl_observe_upt: "foldl observe [] [0 ..< n] = [0 ..< n]"
  by (induction n) (simp_all add: observe_def)

lemma then_init_Inr:
  "then_init r f = Inr p' \<Longrightarrow> \<exists>q. r = Inr q \<and> f q = Inr p'"
  by (cases r) (simp_all add: then_init_def)

lemma init_obs_els:
  "initStickyHeader_main p = Inr p' \<Longrightarrow> obs_els p' = obs_els p"
  "initStickyHeader_part p = Inr p' \<Longrightarrow> obs_els p' = obs_els p"
  "initThemeToggle p = Inr p' \<Longrightarrow> obs_els p' = obs_els p"
  "initCarousels p = Inr p' \<Longrightarrow> obs_els p' = obs_els p"
  "initTestimonialCarousel p = Inr p' \<Longrightarrow> obs_els p' = obs_els p"
  by (auto simp add: obs_els_def obs_view_def initStickyHeader_main_def
      initStickyHeader_part_def initThemeToggle_def initCarousels_def
      initTestimonialCarousel_def addEventListener_def applyTheme_def split: if_splits)

lemma initMobileNav_obs_els:
  "initMobileNav_main p = Inr p' \<Longrightarrow> obs_els p' = obs_els p"
  "initMobileNav_part p = Inr p' \<Longrightarrow> obs_els p' = obs_els p"
proof -
  have a: "obs_els (addEventListener t h q) = obs_els q" for t h q
    by (simp add: obs_els_def obs_view_def addEventListener_def)
  have b: "obs_els (q\<lparr>overlays := os\<rparr>) = obs_els q" for q os
    by (simp add: obs_els_def obs_view_def)
  have c: "obs_els (fold (\<lambda>i. addEventListener (f i) h) is q) = obs_els q" for f h "is" q
    by (induction "is" arbitrary: q) (simp_all add: a)
  show "initMobileNav_main p = Inr p' \<Longrightarrow> obs_els p' = obs_els p"
    by (cases "overlays p") (auto simp add: initMobileNav_main_def a b split: if_splits)
  show "initMobileNav_part p = Inr p' \<Longrightarrow> obs_els p' = obs_els p"
    by (cases "overlays p") (auto simp add: initMobileNav_part_def a b c split: if_splits)
qed

lemma init_observers:
  "initScrollAnimations p = Inr p'
   \<Longrightarrow> obs_els p' = ((((if reveal_els p = [] then reveal_observer p
                          else Some [0 ..< length (reveal_els p)]), revealed p),
                       (counter_observer p, counted p)), reveal_els p, counter_els p)"
  "initCounters p = Inr p'
   \<Longrightarrow> obs_els p' = (((reveal_observer p, revealed p),
                       ((if counter_els p = [] then counter_observer p
                         else Some [0 ..< length (counter_els p)]), counted p)),
                      reveal_els p, counter_els p)"
  by (auto simp add: obs_els_def obs_view_def initScrollAnimations_def initCounters_def
      foldl_observe_upt split: if_splits)

lemma obs_els_fields:
  "obs_els q = (((a, b), (c, d)), e, f)
   \<longleftrightarrow> reveal_observer q = a \<and> revealed q = b \<and> counter_observer q = c
       \<and> counted q = d \<and> reveal_els q = e \<and> counter_els q = f"
  by (auto simp add: obs_els_def obs_view_def)

lemma observers_after_init:
  assumes "obs_els p3 = (((None, []), (None, [])), rs, cs)"
    and "initScrollAnimations p3 = Inr p4" and "initCounters p4 = Inr p5"
  shows "obs_els p5 = (((if rs = [] then None else Some [0 ..< length rs], []),
                        (if cs = [] then None else Some [0 ..< length cs], [])), rs, cs)"
proof -
  from assms(1) have "obs_els p4 = (((if rs = [] then None else Some [0 ..< length rs], []),
                        (None, [])), rs, cs)"
    using init_observers(1) [OF assms(2)] by (simp add: obs_els_fields)
  then show ?thesis
    using init_observers(2) [OF assms(3)] by (simp add: obs_els_fields)
qed

lemma load_obs:
  assumes "fresh p" and "load sc p = Inr p'"
  shows "obs_els p' = (((if reveal_els p = [] then None else Some [0 ..< length (reveal_els p)], []),
                        (if counter_els p = [] then None else Some [0 ..< length (counter_els p)], [])),
                       reveal_els p, counter_els p)"
proof -
  have start: "obs_els p = (((None, []), (None, [])), reveal_els p, counter_els p)"
    using assms(1) by (simp add: fresh_def obs_els_def obs_view_def)
  show ?thesis
  proof (cases sc)
    case Main_js
    with assms(2) have "load_main p = Inr p'" by simp
    then obtain p1 p2 p3 p4 p5 where i:
      "initStickyHeader_main p = Inr p1" "initThemeToggle p1 = Inr p2"
      "initMobileNav_main p2 = Inr p3" "initScrollAnimations p3 = Inr p4"
      "initCounters p4 = Inr p5" "initCarousels p5 = Inr p'"
      unfolding load_main_def by (blast dest: then_init_Inr)
    have "obs_els p3 = obs_els p"
      using init_obs_els(1) [OF i(1)] init_obs_els(3) [OF i(2)] initMobileNav_obs_els(1) [OF i(3)]
      by simp
    with start have "obs_els p3 = (((None, []), (None, [])), reveal_els p, counter_els p)"
      by simp
    from observers_after_init [OF this i(4) i(5)] init_obs_els(4) [OF i(6)]
    show ?thesis by simp
  next
    case Part_000
    with assms(2) have "load_part p = Inr p'" by simp
    then obtain p1 p2 p3 p4 p5 where i:
      "initStickyHeader_part p = Inr p1" "initThemeToggle p1 = Inr p2"
      "initMobileNav_part p2 = Inr p3" "initScrollAnimations p3 = Inr p4"
      "initCounters p4 = Inr p5" "initTestimonialCarousel p5 = Inr p'"
      unfolding load_part_def by (blast dest: then_init_Inr)
    have "obs_els p3 = obs_els p"
      using init_obs_els(2) [OF i(1)] init_obs_els(3) [OF i(2)] initMobileNav_obs_els(2) [OF i(3)]
      by simp
    with start have "obs_els p3 = (((None, []), (None, [])), reveal_els p, counter_els p)"
      by simp
    from observers_after_init [OF this i(4) i(5)] init_obs_els(5) [OF i(6)]
    show ?thesis by simp
  qed
qed

lemma one_shot_load:
  assumes "fresh p" and "load sc p = Inr p'"
  shows "one_shot_page p'"
  using load_obs [OF assms]
  by (simp add: obs_els_fields one_shot_page_def one_shot_def)

lemma load_two_targets:
  "fresh two_targets" "load Part_000 two_targets = Inr two_targets_loaded"
  by (simp_all add: fresh_def two_targets_def two_targets_loaded_def blank_def load_part_def
      then_init_def initStickyHeader_part_def initThemeToggle_def initMobileNav_part_def
      initScrollAnimations_def initCounters_def initTestimonialCarousel_def observe_def)

subsection \<open>The theme on the page\<close>

lemma theme_view_addEventListener:
  "t \<noteq> ThemeToggle \<Longrightarrow> theme_view (addEventListener t h q) = theme_view q"
  by (simp add: theme_view_def handlers_of_def addEventListener_def)

lemma theme_view_add_links:
  "theme_view (fold (\<lambda>i. addEventListener (MenuLink k i) h) is q) = theme_view q"
  by (induction "is" arbitrary: q) (simp_all add: theme_view_addEventListener)

lemma theme_view_overlays: "theme_view (q\<lparr>overlays := os\<rparr>) = theme_view q"
  by (simp add: theme_view_def handlers_of_def)

lemma init_theme_view:
  "initStickyHeader_main p = Inr p' \<Longrightarrow> theme_view p' = theme_view p"
  "initStickyHeader_part p = Inr p' \<Longrightarrow> theme_view p' = theme_view p"
  "initScrollAnimations p = Inr p' \<Longrightarrow> theme_view p' = theme_view p"
  "initCounters p = Inr p' \<Longrightarrow> theme_view p' = theme_view p"
  "initCarousels p = Inr p' \<Longrightarrow> theme_view p' = theme_view p"
  "initTestimonialCarousel p = Inr p' \<Longrightarrow> theme_view p' = theme_view p"
  by (auto simp add: theme_view_def handlers_of_def initStickyHeader_main_def
      initStickyHeader_part_def initScrollAnimations_def initCounters_def initCarousels_def
      initTestimonialCarousel_def addEventListener_def split: if_splits)

lemma initMobileNav_theme_view:
  "initMobileNav_main p = Inr p' \<Longrightarrow> theme_view p' = theme_view p"
  "initMobileNav_part p = Inr p' \<Longrightarrow> theme_view p' = theme_view p"
proof -
  show "initMobileNav_main p = Inr p' \<Longrightarrow> theme_view p' = theme_view p"
    by (cases "overlays p")
      (auto simp add: initMobileNav_main_def theme_view_addEventListener theme_view_overlays
        split: if_splits)
  show "initMobileNav_part p = Inr p' \<Longrightarrow> theme_view p' = theme_view p"
    by (cases "overlays p")
      (auto simp add: initMobileNav_part_def theme_view_addEventListener theme_view_overlays
        theme_view_add_links split: if_splits)
qed

lemma initThemeToggle_theme_view:
  assumes "initThemeToggle p = Inr p'"
    and "theme_view p = ((True, d), a, s, [])"
  shows "theme_view p' = ((True, d), Some (initialTheme p), Some (initialTheme p), [OnThemeClick])"
  using assms
  by (auto simp add: theme_view_def handlers_of_def initThemeToggle_def applyTheme_def
      addEventListener_def)

lemma load_theme_view:
  assumes "fresh p" and "theme_toggle p" and "load sc p = Inr p'"
  shows "theme_view p'
         = ((True, prefers_dark p), Some (initialTheme p), Some (initialTheme p), [OnThemeClick])"
proof -
  have start: "theme_view p = ((True, prefers_dark p), data_theme p, storage p ''theme'', [])"
    using assms(1,2) by (simp add: fresh_def theme_view_def handlers_of_def)
  have same: "initialTheme q = initialTheme p" if "theme_view q = theme_view p" for q
    using that by (simp add: theme_view_def initialTheme_def)
  show ?thesis
  proof (cases sc)
    case Main_js
    with assms(3) have "load_main p = Inr p'" by simp
    then obtain p1 p2 p3 p4 p5 where i:
      "initStickyHeader_main p = Inr p1" "initThemeToggle p1 = Inr p2"
      "initMobileNav_main p2 = Inr p3" "initScrollAnimations p3 = Inr p4"
      "initCounters p4 = Inr p5" "initCarousels p5 = Inr p'"
      unfolding load_main_def by (blast dest: then_init_Inr)
    have 1: "theme_view p1 = theme_view p"
      by (rule init_theme_view(1) [OF i(1)])
    with start have "theme_view p1 = ((True, prefers_dark p), data_theme p, storage p ''theme'', [])"
      by simp
    from initThemeToggle_theme_view [OF i(2) this] same [OF 1]
    have "theme_view p2
          = ((True, prefers_dark p), Some (initialTheme p), Some (initialTheme p), [OnThemeClick])"
      by simp
    then show ?thesis
      using initMobileNav_theme_view(1) [OF i(3)] init_theme_view(3) [OF i(4)]
        init_theme_view(4) [OF i(5)] init_theme_view(5) [OF i(6)]
      by simp
  next
    case Part_000
    with assms(3) have "load_part p = Inr p'" by simp
    then obtain p1 p2 p3 p4 p5 where i:
      "initStickyHeader_part p = Inr p1" "initThemeToggle p1 = Inr p2"
      "initMobileNav_part p2 = Inr p3" "initScrollAnimations p3 = Inr p4"
      "initCounters p4 = Inr p5" "initTestimonialCarousel p5 = Inr p'"
      unfolding load_part_def by (blast dest: then_init_Inr)
    have 1: "theme_view p1 = theme_view p"
      by (rule init_theme_view(2) [OF i(1)])
    with start have "theme_view p1 = ((True, prefers_dark p), data_theme p, storage p ''theme'', [])"
      by simp
    from initThemeToggle_theme_view [OF i(2) this] same [OF 1]
    have "theme_view p2
          = ((True, prefers_dark p), Some (initialTheme p), Some (initialTheme p), [OnThemeClick])"
      by simp
    then show ?thesis
      using initMobileNav_theme_view(2) [OF i(3)] init_theme_view(3) [OF i(4)]
        init_theme_view(4) [OF i(5)] init_theme_view(6) [OF i(6)]
      by simp
  qed
qed

lemma theme_inv_fold:
  assumes "\<And>x q. theme_inv d q \<Longrightarrow> theme_inv d (f x q)"
  shows "theme_inv d p \<Longrightarrow> theme_inv d (fold f xs p)"
  by (induction xs arbitrary: p) (simp_all add: assms)

lemma theme_inv_run_handler: "theme_inv d p \<Longrightarrow> theme_inv d (run_handler h p)"
  by (cases h)
    (auto simp add: theme_inv_def onScroll_def onThemeClick_def applyTheme_def toggleMenu_def
      closeMenu_def scrollCarousel_def Let_def split: option.splits)

lemma theme_inv_revealEntry: "theme_inv d p \<Longrightarrow> theme_inv d (revealEntry e p)"
  by (simp add: theme_inv_def revealEntry_def)

lemma theme_inv_counterEntry_main: "theme_inv d p \<Longrightarrow> theme_inv d (counterEntry_main e p)"
  by (simp add: theme_inv_def counterEntry_main_def requestAnimationFrame_def Let_def)

lemma theme_inv_counterEntry_part: "theme_inv d p \<Longrightarrow> theme_inv d (counterEntry_part e p)"
  by (simp add: theme_inv_def counterEntry_part_def requestAnimationFrame_def Let_def)

lemma theme_inv_run_anim: "theme_inv d p \<Longrightarrow> theme_inv d (run_anim t a p)"
  by (simp add: theme_inv_def run_anim_def requestAnimationFrame_def
      split: prod.splits option.splits)

lemma theme_inv_fire:
  assumes "theme_inv d p"
  shows "theme_inv d (fire sc ev p)"
proof (cases ev)
  case (Scroll y)
  have "theme_inv d (p\<lparr>scrollY := y\<rparr>)"
    using assms by (simp add: theme_inv_def)
  then show ?thesis
    using Scroll by (simp add: dispatch_def theme_inv_fold [OF theme_inv_run_handler])
next
  case (Click t)
  then show ?thesis
    using assms by (simp add: dispatch_def theme_inv_fold [OF theme_inv_run_handler])
next
  case (IntersectSentinel b)
  then show ?thesis
    using assms by (auto simp add: theme_inv_def stickyCallback_def split: option.splits)
next
  case (IntersectReveal vis)
  then show ?thesis
    using assms by (simp add: revealCallback_def theme_inv_fold [OF theme_inv_revealEntry])
next
  case (IntersectCounters vis)
  then show ?thesis
    using assms
    by (cases sc)
      (simp_all add: counterCallback_main_def counterCallback_part_def
        theme_inv_fold [OF theme_inv_counterEntry_main]
        theme_inv_fold [OF theme_inv_counterEntry_part])
next
  case (AnimationFrame t)
  have "theme_inv d (p\<lparr>raf := []\<rparr>)"
    using assms by (simp add: theme_inv_def)
  then show ?thesis
    using AnimationFrame by (simp add: theme_inv_fold [OF theme_inv_run_anim])
qed

lemma theme_inv_run: "theme_inv d p \<Longrightarrow> theme_inv d (run sc evs p)"
  unfolding run_def by (induction evs arbitrary: p) (simp_all add: theme_inv_fire)

lemma onThemeClick_flips:
  "data_theme (onThemeClick p) \<noteq> data_theme p"
  "data_theme (onThemeClick p) = Some ''light'' \<or> data_theme (onThemeClick p) = Some ''dark''"
  by (simp_all add: onThemeClick_def applyTheme_def Let_def)

lemma initialTheme_domain:
  "storage p ''theme'' = None \<or> storage p ''theme'' = Some ''light''
     \<or> storage p ''theme'' = Some ''dark''
   \<Longrightarrow> initialTheme p = ''light'' \<or> initialTheme p = ''dark''"
  by (auto simp add: initialTheme_def)

lemma load_themed:
  "fresh (themed dark ''light'')" "theme_toggle (themed dark ''light'')"
  "load Main_js (themed dark ''light'') = Inr (themed_loaded dark ''light'')"
  by (simp_all add: fresh_def themed_def themed_loaded_def blank_def load_main_def
      then_init_def initStickyHeader_main_def initThemeToggle_def initMobileNav_main_def
      initScrollAnimations_def initCounters_def initCarousels_def initialTheme_def
      applyTheme_def addEventListener_def)

subsection \<open>Rounding\<close>

lemma two_powi_pos: "0 < (2::rat) powi k"
  by (simp add: power_int_def)

lemma two_powi_mono: "j \<le> k \<Longrightarrow> (2::rat) powi j \<le> 2 powi k"
  by (rule power_int_increasing) simp_all

lemma two_powi_strict: "j < k \<Longrightarrow> (2::rat) powi j < 2 powi k"
  by (rule power_int_strict_increasing) simp_all

lemma two_powi_add: "(2::rat) powi j * 2 powi k = 2 powi (j + k)"
  by (simp add: power_int_add)

lemma ilog2_ge1:
  assumes "1 \<le> x"
  shows "2 powi ilog2 x \<le> x \<and> x < 2 powi (ilog2 x + 1)"
proof -
  define n where "n = nat \<lfloor>x\<rfloor>"
  define L where "L = floorlog 2 n"
  have n: "0 < n" "of_nat n \<le> x" "x < of_nat n + 1"
    using assms by (simp_all add: n_def) linarith+
  from floorlog_bounds [of n 2] n(1) have b: "2 ^ (L - 1) \<le> n" "n < 2 ^ L"
    by (simp_all add: L_def)
  have L: "0 < L"
    using b(2) n(1) by (cases L) simp_all
  have e: "ilog2 x = int L - 1"
    using assms by (simp add: ilog2_def n_def L_def)
  have p1: "(2::rat) powi (int L - 1) = 2 ^ (L - 1)"
    using L by (simp add: power_int_def nat_diff_distrib)
  have p2: "(2::rat) powi (int L - 1 + 1) = 2 ^ L"
    by simp
  have "(2::rat) ^ (L - 1) \<le> of_nat n"
    using b(1) by (metis of_nat_le_iff of_nat_numeral of_nat_power)
  moreover have "of_nat n + 1 \<le> (2::rat) ^ L"
  proof -
    from b(2) have "n + 1 \<le> 2 ^ L" by simp
    then have "(of_nat (n + 1) :: rat) \<le> of_nat (2 ^ L)"
      by (simp only: of_nat_le_iff)
    then show ?thesis by simp
  qed
  ultimately show ?thesis
    using n(2,3) unfolding e p1 p2 by linarith
qed

lemma ilog2_lt1:
  assumes "0 < x" and "x < 1"
  shows "2 powi ilog2 x \<le> x \<and> x < 2 powi (ilog2 x + 1)"
proof -
  define m where "m = ilog2 (1 / x)"
  have y: "1 \<le> 1 / x"
    using assms by simp
  from ilog2_ge1 [OF y] have b: "2 powi m \<le> 1 / x" "1 / x < 2 powi (m + 1)"
    by (simp_all add: m_def)
  have m: "m = int (floorlog 2 (nat \<lfloor>1 / x\<rfloor>)) - 1"
    using y by (simp add: m_def ilog2_def)
  have e: "ilog2 x = (if x * 2 powi m = 1 then - m else - m - 1)"
    using assms by (simp add: ilog2_def m Let_def)
  have u: "x * 2 powi m \<le> 1"
    using b(1) assms(1) by (simp add: field_simps)
  have l: "1 < x * 2 powi (m + 1)"
    using b(2) assms(1) by (simp add: field_simps)
  have inv: "(2::rat) powi (- k) * 2 powi k = 1" for k
    by (simp add: power_int_minus)
  show ?thesis
  proof (cases "x * 2 powi m = 1")
    case True
    have "x = 2 powi (- m)"
      using True by (simp add: power_int_minus field_simps)
    moreover have "(2::rat) powi (- m) < 2 powi (- m + 1)"
      by (rule two_powi_strict) simp
    ultimately show ?thesis
      using e True by simp
  next
    case False
    with u have lt: "x * 2 powi m < 1" by simp
    have a: "x < 2 powi (- m)"
      using lt two_powi_pos [of m] by (simp add: power_int_minus field_simps)
    have "(2::rat) powi (- m - 1) * 2 powi (m + 1) = 2 powi ((- m - 1) + (m + 1))"
      by (simp only: two_powi_add)
    then have "(2::rat) powi (- m - 1) * 2 powi (m + 1) = 1"
      by simp
    then have c: "2 powi (- m - 1) < x"
      using l two_powi_pos [of "m + 1"]
      by (metis mult_less_cancel_right_pos)
    from a c e False show ?thesis by simp
  qed
qed

lemma ilog2_bounds:
  assumes "0 < x"
  shows "2 powi ilog2 x \<le> x" and "x < 2 powi (ilog2 x + 1)"
  using assms ilog2_ge1 [of x] ilog2_lt1 [of x] by (cases "1 \<le> x"; simp)+

lemma ilog2_unique:
  assumes "2 powi k \<le> x" and "x < 2 powi (k + 1)"
  shows "ilog2 x = k"
proof -
  have x: "0 < x"
    using assms(1) two_powi_pos [of k] by linarith
  note b = ilog2_bounds [OF x]
  have "\<not> ilog2 x + 1 \<le> k"
    using two_powi_mono [of "ilog2 x + 1" k] b(2) assms(1) by linarith
  moreover have "\<not> k + 1 \<le> ilog2 x"
    using two_powi_mono [of "k + 1" "ilog2 x"] b(1) assms(2) by linarith
  ultimately show ?thesis by linarith
qed

lemma rne_cases:
  "rne z = \<lfloor>z\<rfloor> \<and> z - of_int \<lfloor>z\<rfloor> \<le> 1 / 2
   \<or> rne z = \<lfloor>z\<rfloor> + 1 \<and> 1 / 2 \<le> z - of_int \<lfloor>z\<rfloor>"
  by (simp add: rne_def Let_def)

lemma rne_upper: "of_int (rne z) \<le> z + 1 / 2"
  using rne_cases [of z] by (auto; linarith)

lemma rne_lower: "z - 1 / 2 \<le> of_int (rne z)"
  using rne_cases [of z] by (auto; linarith)

lemma rne_of_int: "rne (of_int n) = n"
  by (simp add: rne_def)

lemma rne_mono:
  assumes "z \<le> w"
  shows "rne z \<le> rne w"
proof (cases "\<lfloor>z\<rfloor> = \<lfloor>w\<rfloor>")
  case True
  with assms have "z - of_int \<lfloor>z\<rfloor> \<le> w - of_int \<lfloor>w\<rfloor>"
    by simp
  with True show ?thesis
    by (simp add: rne_def Let_def)
next
  case False
  with assms have "\<lfloor>z\<rfloor> + 1 \<le> \<lfloor>w\<rfloor>"
    using floor_mono [of z w] by linarith
  moreover have "rne z \<le> \<lfloor>z\<rfloor> + 1"
    using rne_cases [of z] by auto
  moreover have "\<lfloor>w\<rfloor> \<le> rne w"
    using rne_cases [of w] by auto
  ultimately show ?thesis by linarith
qed

lemma rne_le_int: "z \<le> of_int n \<Longrightarrow> rne z \<le> n"
  using rne_mono [of z "of_int n"] by (simp add: rne_of_int)

lemma rne_ge_int: "of_int n \<le> z \<Longrightarrow> n \<le> rne z"
  using rne_mono [of "of_int n" z] by (simp add: rne_of_int)

lemma ulp_scale:
  "2 ^ 52 * (2::rat) powi (e - 52) = 2 powi e"
  "2 ^ 53 * (2::rat) powi (e - 52) = 2 powi (e + 1)"
proof -
  have "(2::rat) powi 52 * 2 powi (e - 52) = 2 powi (52 + (e - 52))"
    by (simp only: two_powi_add)
  moreover have "52 + (e - 52) = e" by simp
  ultimately show "2 ^ 52 * (2::rat) powi (e - 52) = 2 powi e"
    by simp
  have "(2::rat) powi 53 * 2 powi (e - 52) = 2 powi (53 + (e - 52))"
    by (simp only: two_powi_add)
  moreover have "53 + (e - 52) = e + 1" by simp
  ultimately show "2 ^ 53 * (2::rat) powi (e - 52) = 2 powi (e + 1)"
    by (simp del: power_int_add_numeral power_int_add_numeral2)
qed

text \<open>The significand of a positive number, as a rational between \<open>2^52\<close> and \<open>2^53\<close>.\<close>

lemma significand_bounds:
  assumes "0 < x"
  shows "2 ^ 52 \<le> x / 2 powi (ilog2 x - 52)" and "x / 2 powi (ilog2 x - 52) < 2 ^ 53"
proof -
  let ?q = "(2::rat) powi (ilog2 x - 52)"
  have q: "0 < ?q" by (rule two_powi_pos)
  note a = ulp_scale(1) [of "ilog2 x"] and b = ulp_scale(2) [of "ilog2 x"]
  from ilog2_bounds(1) [OF assms] have "2 ^ 52 * ?q \<le> x"
    unfolding a .
  then show "2 ^ 52 \<le> x / ?q"
    using q by (simp add: pos_le_divide_eq)
  from ilog2_bounds(2) [OF assms] have "x < 2 ^ 53 * ?q"
    unfolding b .
  then show "x / ?q < 2 ^ 53"
    using q by (simp add: pos_divide_less_eq)
qed

lemma fl_pos_binade:
  assumes "2 powi k \<le> x" and "x < 2 powi (k + 1)"
  shows "fl_pos x = of_int (rne (x / 2 powi (k - 52))) * 2 powi (k - 52)"
  using ilog2_unique [OF assms] by (simp add: fl_pos_def Let_def)

lemma fl_pos_unfold: "fl_pos x = of_int (rne (x / 2 powi (ilog2 x - 52))) * 2 powi (ilog2 x - 52)"
  by (simp add: fl_pos_def Let_def)

lemma fl_pos_error:
  assumes "0 < x"
  shows "\<bar>fl_pos x - x\<bar> \<le> x / 2 ^ 53"
proof -
  define q where "q = (2::rat) powi (ilog2 x - 52)"
  define z where "z = x / q"
  define r where "r = (of_int (rne z) :: rat)"
  have q: "0 < q" unfolding q_def by (rule two_powi_pos)
  have x: "x = z * q"
    using q by (simp add: z_def)
  have f: "fl_pos x = r * q"
    by (simp add: fl_pos_unfold r_def z_def q_def)
  have h: "\<bar>r - z\<bar> \<le> 1 / 2"
    using rne_upper [of z] rne_lower [of z] unfolding r_def
    by (intro abs_leI) linarith+
  have z52: "2 ^ 52 \<le> z"
    using significand_bounds(1) [OF assms] by (simp add: z_def q_def)
  have "1 / 2 \<le> z / 2 ^ 53"
    using z52 by simp
  with h have "\<bar>r - z\<bar> \<le> z / 2 ^ 53" by linarith
  then have "\<bar>r - z\<bar> * q \<le> (z / 2 ^ 53) * q"
    using q by (intro mult_right_mono) simp_all
  moreover have "\<bar>fl_pos x - x\<bar> = \<bar>r - z\<bar> * q"
  proof -
    have "fl_pos x - x = (r - z) * q"
      unfolding f using x by (simp add: algebra_simps)
    then show ?thesis
      using q by (simp add: abs_mult)
  qed
  moreover have "(z / 2 ^ 53) * q = x / 2 ^ 53"
    using x by simp
  ultimately show ?thesis by simp
qed

lemma fl_pos_range:
  assumes "0 < x"
  shows "2 powi ilog2 x \<le> fl_pos x" and "fl_pos x \<le> 2 powi (ilog2 x + 1)"
proof -
  define q where "q = (2::rat) powi (ilog2 x - 52)"
  define z where "z = x / q"
  define r where "r = (of_int (rne z) :: rat)"
  have q: "0 < q" unfolding q_def by (rule two_powi_pos)
  have f: "fl_pos x = r * q"
    by (simp add: fl_pos_unfold r_def z_def q_def)
  have a: "2 ^ 52 * q = 2 powi ilog2 x" and b: "2 ^ 53 * q = 2 powi (ilog2 x + 1)"
    unfolding q_def by (rule ulp_scale)+
  have "of_int (2 ^ 52) \<le> z"
    using significand_bounds(1) [OF assms] by (simp add: z_def q_def)
  then have "2 ^ 52 \<le> rne z" by (rule rne_ge_int)
  then have "(of_int (2 ^ 52) :: rat) \<le> r"
    unfolding r_def by (simp only: of_int_le_iff)
  then have "2 ^ 52 \<le> r" by simp
  then have "2 ^ 52 * q \<le> r * q"
    using q by (intro mult_right_mono) simp_all
  then show "2 powi ilog2 x \<le> fl_pos x"
    unfolding f a [symmetric] .
  have "z \<le> of_int (2 ^ 53)"
    using significand_bounds(2) [OF assms] by (simp add: z_def q_def)
  then have "rne z \<le> 2 ^ 53" by (rule rne_le_int)
  then have "r \<le> (of_int (2 ^ 53) :: rat)"
    unfolding r_def by (simp only: of_int_le_iff)
  then have "r \<le> 2 ^ 53" by simp
  then have "r * q \<le> 2 ^ 53 * q"
    using q by (intro mult_right_mono) simp_all
  then show "fl_pos x \<le> 2 powi (ilog2 x + 1)"
    unfolding f b [symmetric] .
qed

lemma fl_pos_mono:
  assumes "0 < x" and "x \<le> y"
  shows "fl_pos x \<le> fl_pos y"
proof -
  have y: "0 < y" using assms by simp
  have le: "ilog2 x \<le> ilog2 y"
  proof (rule ccontr)
    assume "\<not> ilog2 x \<le> ilog2 y"
    then have "ilog2 y + 1 \<le> ilog2 x" by simp
    then have "(2::rat) powi (ilog2 y + 1) \<le> 2 powi ilog2 x"
      by (rule two_powi_mono)
    with ilog2_bounds(2) [OF y] ilog2_bounds(1) [OF assms(1)] assms(2) show False
      by linarith
  qed
  show ?thesis
  proof (cases "ilog2 x = ilog2 y")
    case True
    let ?q = "(2::rat) powi (ilog2 y - 52)"
    have q: "0 < ?q" by (rule two_powi_pos)
    have "x / ?q \<le> y / ?q"
      using assms(2) q by (simp add: divide_right_mono)
    then have "rne (x / ?q) \<le> rne (y / ?q)"
      by (rule rne_mono)
    then have "(of_int (rne (x / ?q)) :: rat) \<le> of_int (rne (y / ?q))"
      by simp
    then have "of_int (rne (x / ?q)) * ?q \<le> of_int (rne (y / ?q)) * ?q"
      using q by (intro mult_right_mono) simp_all
    then show ?thesis
      by (simp add: fl_pos_unfold True)
  next
    case False
    with le have "ilog2 x + 1 \<le> ilog2 y" by simp
    then have "(2::rat) powi (ilog2 x + 1) \<le> 2 powi ilog2 y"
      by (rule two_powi_mono)
    with fl_pos_range(2) [OF assms(1)] fl_pos_range(1) [OF y] show ?thesis
      by linarith
  qed
qed

lemma fl_nonneg: "0 \<le> x \<Longrightarrow> 0 \<le> fl x"
proof (cases "x = 0")
  case True
  then show ?thesis by (simp add: fl_def)
next
  case False
  assume "0 \<le> x"
  with False have x: "0 < x" by simp
  from fl_pos_range(1) [OF x] two_powi_pos [of "ilog2 x"] have "0 < fl_pos x"
    by linarith
  with x show ?thesis by (simp add: fl_def)
qed

lemma fl_pos_eq: "0 < x \<Longrightarrow> fl x = fl_pos x"
  by (simp add: fl_def)

lemma fl_mono:
  assumes "0 \<le> x" and "x \<le> y"
  shows "fl x \<le> fl y"
proof (cases "x = 0")
  case True
  with assms fl_nonneg [of y] show ?thesis by (simp add: fl_def)
next
  case False
  with assms have "0 < x" "0 < y" by simp_all
  with assms(2) show ?thesis
    by (simp add: fl_pos_eq fl_pos_mono)
qed

lemma fl_error:
  assumes "0 \<le> x"
  shows "\<bar>fl x - x\<bar> \<le> x / 2 ^ 53"
proof (cases "x = 0")
  case True
  then show ?thesis by (simp add: fl_def)
next
  case False
  with assms have "0 < x" by simp
  then show ?thesis
    using fl_pos_error [of x] by (simp add: fl_pos_eq)
qed

lemma fl_binade:
  assumes "2 powi k \<le> x" and "x < 2 powi (k + 1)"
  shows "fl x = of_int (rne (x / 2 powi (k - 52))) * 2 powi (k - 52)"
proof -
  have "0 < x"
    using assms(1) two_powi_pos [of k] by linarith
  then show ?thesis
    using fl_pos_binade [OF assms] by (simp add: fl_pos_eq)
qed

text \<open>Rounding in the binades the counter of 1,234 passes through.\<close>

lemma fl_binades:
  "1 \<le> x \<Longrightarrow> x < 2 \<Longrightarrow> fl x = of_int (rne (x * 4503599627370496)) / 4503599627370496"
  "8 \<le> x \<Longrightarrow> x < 16 \<Longrightarrow> fl x = of_int (rne (x * 562949953421312)) / 562949953421312"
  "16 \<le> x \<Longrightarrow> x < 32 \<Longrightarrow> fl x = of_int (rne (x * 281474976710656)) / 281474976710656"
  "32 \<le> x \<Longrightarrow> x < 64 \<Longrightarrow> fl x = of_int (rne (x * 140737488355328)) / 140737488355328"
  "64 \<le> x \<Longrightarrow> x < 128 \<Longrightarrow> fl x = of_int (rne (x * 70368744177664)) / 70368744177664"
  "128 \<le> x \<Longrightarrow> x < 256 \<Longrightarrow> fl x = of_int (rne (x * 35184372088832)) / 35184372088832"
  "256 \<le> x \<Longrightarrow> x < 512 \<Longrightarrow> fl x = of_int (rne (x * 17592186044416)) / 17592186044416"
  "512 \<le> x \<Longrightarrow> x < 1024 \<Longrightarrow> fl x = of_int (rne (x * 8796093022208)) / 8796093022208"
  "1024 \<le> x \<Longrightarrow> x < 2048 \<Longrightarrow> fl x = of_int (rne (x * 4398046511104)) / 4398046511104"
  using fl_binade [of 0 x] fl_binade [of 3 x] fl_binade [of 4 x] fl_binade [of 5 x]
    fl_binade [of 6 x] fl_binade [of 7 x] fl_binade [of 8 x] fl_binade [of 9 x]
    fl_binade [of 10 x]
  by (simp_all add: power_int_minus field_simps)

lemma ceiling_rat_numeral: "\<lceil>numeral a / numeral b :: rat\<rceil> = - (- numeral a div numeral b)"
  using floor_divide_of_int_eq [of "- numeral a" "numeral b", where ?'a = rat]
  by (simp add: ceiling_def)

lemma rne_divide_int:
  fixes a b :: int
  assumes "0 < b"
  shows "rne (of_int a / of_int b) =
     (if 2 * (a mod b) < b then a div b
      else if b < 2 * (a mod b) then a div b + 1
      else if even (a div b) then a div b else a div b + 1)"
proof -
  have f: "\<lfloor>(of_int a / of_int b :: rat)\<rfloor> = a div b"
    by (rule floor_divide_of_int_eq)
  have "(of_int a :: rat) = of_int (a div b * b + a mod b)"
    by (simp only: div_mult_mod_eq)
  then have "(of_int a :: rat) = of_int (a div b) * of_int b + of_int (a mod b)"
    by (simp only: of_int_add of_int_mult)
  then have d: "(of_int a / of_int b :: rat) - of_int (a div b) = of_int (a mod b) / of_int b"
    using assms by (simp add: field_simps)
  have h: "(of_int (2 * (a mod b)) :: rat) = 2 * of_int (a mod b)"
    by simp
  have c1: "(of_int (a mod b) / of_int b < (1 / 2 :: rat)) = (2 * (a mod b) < b)"
  proof -
    have "(of_int (a mod b) / of_int b < (1 / 2 :: rat))
            = ((of_int (2 * (a mod b)) :: rat) < of_int b)"
      using assms unfolding h by (simp add: field_simps)
    then show ?thesis by (simp only: of_int_less_iff)
  qed
  have c2: "((1 / 2 :: rat) < of_int (a mod b) / of_int b) = (b < 2 * (a mod b))"
  proof -
    have "((1 / 2 :: rat) < of_int (a mod b) / of_int b)
            = ((of_int b :: rat) < of_int (2 * (a mod b)))"
      using assms unfolding h by (simp add: field_simps)
    then show ?thesis by (simp only: of_int_less_iff)
  qed
  show ?thesis
    unfolding rne_def Let_def f d c1 c2 ..
qed

lemma rne_numeral:
  "rne (numeral a / numeral b) =
     (if 2 * (numeral a mod numeral b) < (numeral b :: int) then numeral a div numeral b
      else if (numeral b :: int) < 2 * (numeral a mod numeral b) then numeral a div numeral b + 1
      else if even (numeral a div numeral b :: int) then numeral a div numeral b
      else numeral a div numeral b + 1)"
  using rne_divide_int [of "numeral b" "numeral a"] by simp

lemma rne_numeral_int: "rne (numeral a) = numeral a"
  using rne_of_int [of "numeral a"] by simp

lemma updates_step:
  "0 < n \<Longrightarrow> updates n (Some (UpdateCount c cur inc tgt suf))
     = (case updateCount c cur inc tgt suf of (sh, a') \<Rightarrow> (sh, a' \<noteq> None) # updates (n - 1) a')"
  by (cases n) simp_all

lemma start_main_1234:
  "start_main c ''1,234+'' = UpdateCount c (Num 0) (Num (694680242521899 / 70368744177664)) (Num 1234) ''+''"
  by (simp add: start_main_def parseInt_def strip_non_digits_def strip_digits_commas_def
      is_digit_def dec_value_def digit_val_def duration_def fl_binades rne_numeral
      rne_numeral_int)

lemma updates_1234:
  "updates 126 (Some (start_main c ''1,234+''))
     = map (\<lambda>v. (Shown (Num (of_int v)) [], True)) values_1234 @ [(Shown (Num 1234) ''+'', False)]"
  unfolding start_main_1234 values_1234_def
  by (simp add: updates_step updateCount_def Let_def fl_binades rne_numeral rne_numeral_int
      ceiling_rat_numeral fl_0)

lemma fl_lower:
  assumes "0 \<le> x"
  shows "x * (1 - 1 / 2 ^ 53) \<le> fl x"
proof -
  from fl_error [OF assms] have "x - fl x \<le> x / 2 ^ 53"
    by linarith
  moreover have "x * (1 - 1 / 2 ^ 53) = x - x / 2 ^ 53"
    by (simp add: algebra_simps)
  ultimately show ?thesis
    by linarith
qed

lemma pending_append: "pending a (xs @ ys) = pending (pending a xs) ys"
  by (induction a xs rule: pending.induct) simp_all

lemma pending_None_prefix: "pending a (take n ts) = None \<Longrightarrow> pending a ts = None"
  using pending_append [of a "take n ts" "drop n ts"] by simp

lemma power_one_minus:
  fixes u :: rat
  assumes "0 \<le> u" and "u \<le> 1"
  shows "1 - of_nat n * u \<le> (1 - u) ^ n"
proof (induction n)
  case 0
  then show ?case by simp
next
  case (Suc n)
  have "1 - of_nat (Suc n) * u \<le> (1 - of_nat n * u) * (1 - u)"
    using assms(1) by (simp add: algebra_simps)
  also have "\<dots> \<le> (1 - u) ^ n * (1 - u)"
    using Suc assms(2) by (intro mult_right_mono) simp_all
  finally show ?case by (simp add: mult.commute)
qed

lemma unit_roundoff_126: "(125::rat) \<le> 126 * (1 - 1 / 2 ^ 53) ^ 127"
proof -
  have "(1::rat) - of_nat 127 * (1 / 2 ^ 53) \<le> (1 - 1 / 2 ^ 53) ^ 127"
    by (rule power_one_minus) simp_all
  then have "126 * ((1::rat) - of_nat 127 * (1 / 2 ^ 53)) \<le> 126 * (1 - 1 / 2 ^ 53) ^ 127"
    by (intro mult_left_mono) simp_all
  moreover have "(125::rat) \<le> 126 * (1 - of_nat 127 * (1 / 2 ^ 53))"
    by simp
  ultimately show ?thesis by linarith
qed

lemma updateCount_reaches_target:
  fixes U :: rat
  assumes U: "0 \<le> U" "U \<le> 1" and fl_lo: "\<And>x. 0 \<le> x \<Longrightarrow> x * U \<le> fl x"
    and iv: "0 \<le> iv"
  shows "0 \<le> cv \<Longrightarrow> ts \<noteq> []
         \<Longrightarrow> tv \<le> (cv + of_nat (length ts) * iv) * U ^ length ts
         \<Longrightarrow> pending (Some (UpdateCount c (Num cv) (Num iv) (Num tv) suf)) ts = None"
proof (induction ts arbitrary: cv)
  case Nil
  then show ?case by simp
next
  case (Cons t ts)
  define n where "n = (of_nat (length ts) :: rat)"
  define cv' where "cv' = fl (cv + iv)"
  have n: "0 \<le> n" by (simp add: n_def)
  have s: "0 \<le> cv + iv"
    using Cons.prems(1) iv by simp
  have lo: "(cv + iv) * U \<le> cv'"
    unfolding cv'_def using s by (rule fl_lo)
  have nn: "0 \<le> cv'"
    unfolding cv'_def using s by (rule fl_nonneg)
  have bound: "tv \<le> (cv + (n + 1) * iv) * U * U ^ length ts"
    using Cons.prems(3) by (simp add: n_def mult.assoc add.commute)
  have first: "callback (UpdateCount c (Num cv) (Num iv) (Num tv) suf) (Num t)
                 = (if cv' < tv
                    then (Shown (Num (of_int \<lceil>cv'\<rceil>)) [],
                          Some (UpdateCount c (Num cv') (Num iv) (Num tv) suf))
                    else (Shown (Num tv) suf, None))"
    by (simp add: updateCount_def cv'_def)
  show ?case
  proof (cases "cv' < tv")
    case False
    then show ?thesis
      by (simp only: pending.simps first) simp
  next
    case True
    have Un: "0 \<le> U ^ length ts"
      using U(1) by simp
    have "n * iv * U \<le> n * iv * 1"
      using U n iv by (intro mult_left_mono) simp_all
    moreover have "(cv + (n + 1) * iv) * U = (cv + iv) * U + n * iv * U"
      by (simp add: algebra_simps)
    ultimately have "(cv + (n + 1) * iv) * U \<le> cv' + n * iv"
      using lo by simp
    then have "(cv + (n + 1) * iv) * U * U ^ length ts \<le> (cv' + n * iv) * U ^ length ts"
      using Un by (rule mult_right_mono)
    with bound have next_bound: "tv \<le> (cv' + of_nat (length ts) * iv) * U ^ length ts"
      unfolding n_def by (rule order_trans)
    have "ts \<noteq> []"
    proof
      assume "ts = []"
      with next_bound have "tv \<le> cv'" by simp
      with True show False by simp
    qed
    from Cons.IH [OF nn this next_bound] True show ?thesis
      by (simp only: pending.simps first) simp
  qed
qed

lemma fl_125: "fl 125 = 125"
  by (simp add: fl_binades rne_numeral_int)

lemma start_main_cases:
  "(\<exists>suf. start_main c targetText = UpdateCount c (Num 0) NaN NaN suf)
   \<or> (\<exists>tv suf. 0 \<le> tv
         \<and> start_main c targetText
             = UpdateCount c (Num 0) (Num (fl (tv / 125))) (Num tv) suf)"
proof (cases "takeWhile is_digit (strip_non_digits targetText) = []")
  case True
  then show ?thesis
    by (simp add: start_main_def parseInt_def)
next
  case False
  have "0 \<le> fl (of_nat (dec_value (takeWhile is_digit (strip_non_digits targetText))))"
    by (rule fl_nonneg) simp
  with False show ?thesis
    by (simp add: start_main_def parseInt_def duration_def fl_125 Let_def)
qed

lemma start_main_terminates:
  assumes "126 \<le> length ts"
  shows "pending (Some (start_main c targetText)) ts = None"
proof -
  define U where "U = (1 - 1 / 2 ^ 53 :: rat)"
  have U: "0 \<le> U" "U \<le> 1"
    by (simp_all add: U_def)
  have fl_lo: "x * U \<le> fl x" if "0 \<le> x" for x
    unfolding U_def using that by (rule fl_lower)
  have r: "125 \<le> 126 * U ^ 127"
    unfolding U_def by (rule unit_roundoff_126)
  have p: "U ^ 127 = U * U ^ 126"
    using power_Suc [of U 126] by simp
  have "pending (Some (start_main c targetText)) (take 126 ts) = None"
  proof -
    obtain t ts' where ts: "take 126 ts = t # ts'"
      using assms by (cases "take 126 ts") auto
    have len: "length (take 126 ts) = 126"
      using assms by simp
    from start_main_cases [of c targetText] show ?thesis
    proof (elim disjE exE conjE)
      fix suf
      assume "start_main c targetText = UpdateCount c (Num 0) NaN NaN suf"
      then show ?thesis
        by (simp add: ts updateCount_def)
    next
      fix tv suf
      assume tv: "0 \<le> tv"
        and st: "start_main c targetText
                   = UpdateCount c (Num 0) (Num (fl (tv / 125))) (Num tv) suf"
      define iv where "iv = fl (tv / 125)"
      have iv: "0 \<le> iv"
        unfolding iv_def using tv by (intro fl_nonneg) simp
      have "tv / 125 * U \<le> iv"
        unfolding iv_def using tv by (intro fl_lo) simp
      then have "126 * (tv / 125 * U) \<le> 126 * iv"
        by (intro mult_left_mono) simp_all
      then have a: "126 * (tv / 125 * U) * U ^ 126 \<le> 126 * iv * U ^ 126"
        using U(1) by (intro mult_right_mono) simp_all
      have "tv * 125 \<le> tv * (126 * U ^ 127)"
        using r tv by (rule mult_left_mono)
      then have "tv \<le> tv * (126 * U ^ 127) / 125"
        by simp
      also have "\<dots> = 126 * (tv / 125 * U) * U ^ 126"
        unfolding p by simp
      finally have b: "tv \<le> 126 * (tv / 125 * U) * U ^ 126" .
      from b a have "tv \<le> 126 * iv * U ^ 126"
        by (rule order_trans)
      then have "tv \<le> (0 + of_nat (length (take 126 ts)) * iv) * U ^ length (take 126 ts)"
        unfolding len by simp
      from updateCount_reaches_target [OF U fl_lo iv _ _ this, of c suf] ts show ?thesis
        by (simp add: st iv_def)
    qed
  qed
  then show ?thesis by (rule pending_None_prefix)
qed

lemma fl_half_binade:
  "1 / 2 \<le> x \<Longrightarrow> x < 1 \<Longrightarrow> fl x = of_int (rne (x * 9007199254740992)) / 9007199254740992"
  using fl_binade [of "- 1" x] by (simp add: power_int_minus field_simps)

lemma fl_below_one:
  assumes "0 \<le> y" and "fl y < 1"
  shows "fl y \<le> 1 - 1 / 2 ^ 53"
proof -
  have y1: "y < 1"
  proof (rule ccontr)
    assume "\<not> y < 1"
    then have "fl 1 \<le> fl y" by (intro fl_mono) simp_all
    with assms(2) show False by (simp add: fl_1)
  qed
  show ?thesis
  proof (cases "1 / 2 \<le> y")
    case True
    define r where "r = rne (y * 9007199254740992)"
    have f: "fl y = of_int r / 9007199254740992"
      unfolding r_def using True y1 by (rule fl_half_binade)
    with assms(2) have "(of_int r :: rat) < of_int 9007199254740992"
      by simp
    then have "r < 9007199254740992"
      by (simp only: of_int_less_iff)
    then have "r \<le> 9007199254740991" by simp
    then have "(of_int r :: rat) \<le> of_int 9007199254740991"
      by (simp only: of_int_le_iff)
    then show ?thesis
      unfolding f by simp
  next
    case False
    then have "fl y \<le> fl (1 / 2)"
      using assms(1) by (intro fl_mono) simp_all
    also have "fl (1 / 2) = 1 / 2"
      by (simp add: fl_half_binade rne_numeral_int)
    finally show ?thesis by simp
  qed
qed

lemma progress_range:
  assumes "s \<le> t"
  shows "0 \<le> progress s t" and "progress s t \<le> 1"
    and "progress s t < 1 \<Longrightarrow> progress s t \<le> 1 - 1 / 2 ^ 53"
proof -
  have e: "0 \<le> fl (t - s)"
    using assms by (intro fl_nonneg) simp
  then have y: "0 \<le> fl (t - s) / 2000" by simp
  then have "0 \<le> fl (fl (t - s) / 2000)" by (rule fl_nonneg)
  then show "0 \<le> progress s t" by (simp add: progress_def)
  show "progress s t \<le> 1" by (simp add: progress_def)
  assume "progress s t < 1"
  then have "fl (fl (t - s) / 2000) < 1" and p: "progress s t = fl (fl (t - s) / 2000)"
    by (simp_all add: progress_def)
  from fl_below_one [OF y this(1)] show "progress s t \<le> 1 - 1 / 2 ^ 53"
    by (simp add: p)
qed

lemma progress_mono:
  assumes "s \<le> t" and "t \<le> t'"
  shows "progress s t \<le> progress s t'"
proof -
  have "fl (t - s) \<le> fl (t' - s)"
    using assms by (intro fl_mono) simp_all
  moreover have "0 \<le> fl (t - s)"
    using assms by (intro fl_nonneg) simp
  ultimately have "fl (fl (t - s) / 2000) \<le> fl (fl (t' - s) / 2000)"
    by (intro fl_mono) (simp_all add: divide_right_mono)
  then show ?thesis
    by (simp add: progress_def min_le_iff_disj)
qed

lemma progress_done:
  assumes "s + 2000 \<le> t"
  shows "progress s t = 1"
proof -
  have "fl 2000 \<le> fl (t - s)"
    using assms by (intro fl_mono) simp_all
  then have "1 \<le> fl (t - s) / 2000"
    by (simp add: fl_2000)
  then have "fl 1 \<le> fl (fl (t - s) / 2000)"
    by (intro fl_mono) simp_all
  then show ?thesis
    by (simp add: progress_def fl_1)
qed

lemma step_next:
  "s \<noteq> 0 \<Longrightarrow> step c (Some (Num s)) target suf (Num t)
     = (if progress s t < 1
        then (Shown (Math_floor (js_mul (Num (progress s t)) target)) [],
              Some (Step c (Some (Num s)) target suf))
        else (Shown target suf, None))"
  by (simp add: step_def duration_def progress_def Let_def)

lemma step_finishes:
  assumes "s \<noteq> 0" and "\<exists>t\<in>set ts. s + 2000 \<le> t"
  shows "pending (Some (Step c (Some (Num s)) target suf)) ts = None
       \<and> finals (frames (Some (Step c (Some (Num s)) target suf)) ts) = [Shown target suf]"
  using assms(2)
proof (induction ts)
  case Nil
  then show ?case by simp
next
  case (Cons t ts)
  show ?case
  proof (cases "progress s t < 1")
    case True
    with Cons.prems have "\<exists>t\<in>set ts. s + 2000 \<le> t"
      using progress_done [of s t] by auto
    with Cons.IH True assms(1) show ?thesis
      by (simp add: step_next finals_def)
  next
    case False
    with assms(1) show ?thesis
      by (simp add: step_next finals_def)
  qed
qed

lemma callback_final:
  "callback a t = (sh, None) \<Longrightarrow> sh = final_of a"
  "callback a t = (sh, Some a') \<Longrightarrow> final_of a' = final_of a"
  by (cases a; auto simp add: updateCount_def step_def Let_def split: if_splits)+

lemma finals_pending:
  "finals (frames (Some a) ts) = (if pending (Some a) ts = None then [final_of a] else [])"
proof (induction ts arbitrary: a)
  case Nil
  then show ?case by (simp add: finals_def)
next
  case (Cons t ts)
  obtain sh a' where c: "callback a (Num t) = (sh, a')"
    by (cases "callback a (Num t)")
  show ?case
  proof (cases a')
    case None
    with c callback_final(1) [of a "Num t" sh] show ?thesis
      by (simp add: finals_def)
  next
    case (Some b)
    with c callback_final(2) [of a "Num t" sh b] Cons.IH [of b] show ?thesis
      by (simp add: finals_def)
  qed
qed

lemma frames_append: "frames a (xs @ ys) = frames a xs @ frames (pending a xs) ys"
  by (induction a xs rule: frames.induct) (simp_all split: prod.splits)

lemma frames_done_prefix:
  "pending a (take n ts) = None \<Longrightarrow> frames a ts = frames a (take n ts)"
  using frames_append [of a "take n ts" "drop n ts"] by simp

lemma frames_updates:
  "frames (Some (UpdateCount c cur inc tgt suf)) ts
     = updates (length ts) (Some (UpdateCount c cur inc tgt suf))"
proof (induction ts arbitrary: cur)
  case Nil
  then show ?case by simp
next
  case (Cons t ts)
  then show ?case
    by (simp add: updateCount_def Let_def)
qed

lemma frames_main_1234:
  assumes "126 \<le> length ts"
  shows "frames (Some (start_main c ''1,234+'')) ts
     = map (\<lambda>v. (Shown (Num (of_int v)) [], True)) values_1234 @ [(Shown (Num 1234) ''+'', False)]"
proof -
  have "pending (Some (start_main c ''1,234+'')) (take 126 ts) = None"
    using assms by (intro start_main_terminates) simp
  then have "frames (Some (start_main c ''1,234+'')) ts
               = frames (Some (start_main c ''1,234+'')) (take 126 ts)"
    by (rule frames_done_prefix)
  also have "\<dots> = updates (length (take 126 ts)) (Some (start_main c ''1,234+''))"
    unfolding start_main_1234 by (rule frames_updates)
  also have "length (take 126 ts) = 126"
    using assms by simp
  finally show ?thesis
    by (simp only: updates_1234)
qed

lemma counts_up_main_1234:
  "counts_up (<) (\<lambda>a. a \<le> 1234) 0 (Shown (Num 1234) ''+'')
     (map (\<lambda>v. (Shown (Num (of_int v)) [], True)) values_1234 @ [(Shown (Num 1234) ''+'', False)])"
  by (simp add: values_1234_def)

lemma value_below_1234:
  assumes "0 \<le> p" and "p \<le> 1 - 1 / 2 ^ 53"
  shows "fl (p * 1234) < 1234"
proof -
  have "fl (p * 1234) \<le> fl ((1 - 1 / 2 ^ 53) * 1234)"
    using assms by (intro fl_mono) simp_all
  also have "\<dots> < 1234"
    by (simp add: fl_binades rne_numeral)
  finally show ?thesis .
qed

lemma start_part_1234: "start_part c ''1,234+'' = Step c None (Num 1234) ''+''"
  by (simp add: start_part_def parseInt_def strip_non_digits_def strip_digits_commas_def
      is_digit_def dec_value_def digit_val_def fl_binades rne_numeral_int)

lemma counts_up_step_1234:
  assumes "s \<noteq> 0"
  shows "s \<le> t \<Longrightarrow> sorted (t # ts) \<Longrightarrow> lo \<le> of_int \<lfloor>fl (progress s t * 1234)\<rfloor>
         \<Longrightarrow> counts_up (\<le>) (\<lambda>a. a < 1234) lo (Shown (Num 1234) ''+'')
               (frames (Some (Step c (Some (Num s)) (Num 1234) ''+'')) (t # ts))"
proof (induction ts arbitrary: t lo)
  case Nil
  show ?case
  proof (cases "progress s t < 1")
    case True
    from progress_range [OF Nil.prems(1)] True
    have "fl (progress s t * 1234) < 1234"
      by (intro value_below_1234) simp_all
    then have "of_int \<lfloor>fl (progress s t * 1234)\<rfloor> < (1234 :: rat)"
      using of_int_floor_le [of "fl (progress s t * 1234)"] by linarith
    with True Nil.prems(3) assms show ?thesis
      by (simp add: step_next)
  next
    case False
    with assms show ?thesis
      by (simp add: step_next)
  qed
next
  case (Cons t' ts)
  show ?case
  proof (cases "progress s t < 1")
    case True
    from progress_range [OF Cons.prems(1)] True
    have "fl (progress s t * 1234) < 1234"
      by (intro value_below_1234) simp_all
    then have b: "of_int \<lfloor>fl (progress s t * 1234)\<rfloor> < (1234 :: rat)"
      using of_int_floor_le [of "fl (progress s t * 1234)"] by linarith
    have tt: "t \<le> t'" and st: "s \<le> t'" and so: "sorted (t' # ts)"
      using Cons.prems(1,2) by simp_all
    have "progress s t * 1234 \<le> progress s t' * 1234"
      using progress_mono [OF Cons.prems(1) tt] by simp
    moreover have "0 \<le> progress s t * 1234"
      using progress_range(1) [OF Cons.prems(1)] by simp
    ultimately have "fl (progress s t * 1234) \<le> fl (progress s t' * 1234)"
      by (intro fl_mono)
    then have "\<lfloor>fl (progress s t * 1234)\<rfloor> \<le> \<lfloor>fl (progress s t' * 1234)\<rfloor>"
      by (rule floor_mono)
    then have m: "(of_int \<lfloor>fl (progress s t * 1234)\<rfloor> :: rat)
                    \<le> of_int \<lfloor>fl (progress s t' * 1234)\<rfloor>"
      by (simp only: of_int_le_iff)
    have "counts_up (\<le>) (\<lambda>a. a < 1234) (of_int \<lfloor>fl (progress s t * 1234)\<rfloor>)
            (Shown (Num 1234) ''+'')
            (frames (Some (Step c (Some (Num s)) (Num 1234) ''+'')) (t' # ts))"
      using st so m by (rule Cons.IH)
    with True b Cons.prems(3) assms show ?thesis
      by (simp add: step_next del: frames.simps(3))
        (simp add: step_next)
  next
    case False
    with assms show ?thesis
      by (simp add: step_next)
  qed
qed

lemma step_unset:
  "startTime = None \<or> startTime = Some (Num 0)
   \<Longrightarrow> step c startTime target suf (Num t)
       = (Shown (Math_floor (js_mul (Num 0) target)) [], Some (Step c (Some (Num t)) target suf))"
  by (auto simp add: step_def duration_def fl_0)

lemma counts_up_unset_1234:
  "startTime = None \<or> startTime = Some (Num 0) \<Longrightarrow> sorted ts \<Longrightarrow> \<forall>t\<in>set ts. 0 \<le> t
   \<Longrightarrow> counts_up (\<le>) (\<lambda>a. a < 1234) 0 (Shown (Num 1234) ''+'')
         (frames (Some (Step c startTime (Num 1234) ''+'')) ts)"
proof (induction ts arbitrary: startTime)
  case Nil
  then show ?case by simp
next
  case (Cons t ts)
  have first: "callback (Step c startTime (Num 1234) ''+'') (Num t)
                 = (Shown (Num 0) [], Some (Step c (Some (Num t)) (Num 1234) ''+''))"
    using step_unset [OF Cons.prems(1), of c "Num 1234" "''+''" t] by (simp add: fl_0)
  have rest: "counts_up (\<le>) (\<lambda>a. a < 1234) 0 (Shown (Num 1234) ''+'')
                (frames (Some (Step c (Some (Num t)) (Num 1234) ''+'')) ts)"
  proof (cases "t = 0")
    case True
    with Cons.prems show ?thesis
      by (intro Cons.IH) simp_all
  next
    case False
    show ?thesis
    proof (cases ts)
      case Nil
      then show ?thesis by simp
    next
      case (Cons t' ts')
      have t: "t \<le> t'" "sorted (t' # ts')"
        using Cons.prems(2) Cons by simp_all
      have "0 \<le> progress t t' * 1234"
        using progress_range(1) [OF t(1)] by simp
      then have "0 \<le> fl (progress t t' * 1234)" by (rule fl_nonneg)
      then have "(0::rat) \<le> of_int \<lfloor>fl (progress t t' * 1234)\<rfloor>"
        by simp
      from counts_up_step_1234 [OF False t(1) t(2) this, of c] Cons show ?thesis
        by simp
    qed
  qed
  show ?case
    using rest by (simp only: frames.simps first) simp
qed

lemma part_finishes_late:
  assumes "t0 \<noteq> 0" and "\<exists>t\<in>set us. t0 + 2000 \<le> t"
  shows "startTime = None \<or> startTime = Some (Num 0)
         \<Longrightarrow> pending (Some (Step c startTime target suf)) (replicate k 0 @ t0 # us) = None"
proof (induction k arbitrary: startTime)
  case 0
  from step_finishes [OF assms, of c target suf] show ?case
    by (simp add: step_unset [OF 0])
next
  case (Suc k)
  have "pending (Some (Step c (Some (Num 0)) target suf)) (replicate k 0 @ t0 # us) = None"
    by (rule Suc.IH) simp
  then show ?case
    by (simp add: step_unset [OF Suc.prems])
qed

lemma part_finishes:
  assumes "t0 \<noteq> 0" and "\<exists>t\<in>set us. t0 + 2000 \<le> t"
  shows "pending (Some (start_part c targetText)) (replicate k 0 @ t0 # us) = None"
  using part_finishes_late [OF assms, of None c] by (simp add: start_part_def Let_def)

subsection \<open>The header stays\<close>

lemma has_header_fold:
  assumes "\<And>x q. header q \<noteq> None \<Longrightarrow> header (f x q) \<noteq> None"
  shows "header p \<noteq> None \<Longrightarrow> header (fold f xs p) \<noteq> None"
proof (induction xs arbitrary: p)
  case Nil
  then show ?case by simp
next
  case (Cons x xs)
  from Cons.prems have "header (f x p) \<noteq> None"
    by (rule assms)
  then have "header (fold f xs (f x p)) \<noteq> None"
    by (rule Cons.IH)
  then show ?case by simp
qed

lemma has_header_run_handler: "header p \<noteq> None \<Longrightarrow> header (run_handler h p) \<noteq> None"
  by (cases h)
    (auto simp add: onScroll_def onThemeClick_def applyTheme_def toggleMenu_def closeMenu_def
      scrollCarousel_def Let_def split: option.splits)

lemma has_header_fire:
  assumes "header p \<noteq> None"
  shows "header (fire sc ev p) \<noteq> None"
proof (cases ev)
  case (Scroll y)
  have "header (p\<lparr>scrollY := y\<rparr>) \<noteq> None"
    using assms by simp
  with Scroll show ?thesis
    by (simp add: dispatch_def has_header_fold [OF has_header_run_handler])
next
  case (Click t)
  with assms show ?thesis
    by (simp add: dispatch_def has_header_fold [OF has_header_run_handler])
next
  case (IntersectSentinel b)
  with assms show ?thesis
    by (auto simp add: stickyCallback_def split: option.splits)
next
  case (IntersectReveal vis)
  have "header (revealEntry e q) = header q" for e q
    by (simp add: revealEntry_def)
  with IntersectReveal assms show ?thesis
    by (simp add: revealCallback_def batch_other [of header revealEntry])
next
  case (IntersectCounters vis)
  have "header (counterEntry_main e q) = header q" "header (counterEntry_part e q) = header q"
    for e q
    by (simp_all add: counterEntry_main_def counterEntry_part_def requestAnimationFrame_def
        Let_def)
  with IntersectCounters assms show ?thesis
    by (cases sc)
      (simp_all add: counterCallback_main_def counterCallback_part_def
        batch_other [of header counterEntry_main] batch_other [of header counterEntry_part])
next
  case (AnimationFrame t)
  have "header (run_anim t a q) = header q" for a q
    by (simp add: run_anim_def requestAnimationFrame_def split: prod.splits option.splits)
  with AnimationFrame assms show ?thesis
    by (simp add: batch_other [of header "run_anim t"])
qed

lemma has_header_run: "header p \<noteq> None \<Longrightarrow> header (run sc evs p) \<noteq> None"
  unfolding run_def by (rule has_header_fold) (rule has_header_fire)

subsection \<open>Frames on the page\<close>

text \<open>
  The frames of a closure are what the page shows: when the closure is the only
  requested callback, a run of animation frames leaves the text of the closure's last
  frame in its counter element, and the closure that is still pending as the only
  requested callback.
\<close>

lemma callback_counter: "callback a t = (sh, Some a') \<Longrightarrow> anim_counter a' = anim_counter a"
  by (cases a) (auto simp add: updateCount_def step_def Let_def split: if_splits)

lemma frames_Nil_iff: "frames (Some a) ts = [] \<longleftrightarrow> ts = []"
  by (cases ts) (simp_all split: prod.splits)

lemma run_idle:
  "raf p = [] \<Longrightarrow> raf (run sc (map AnimationFrame ts) p) = []
                   \<and> counter_els (run sc (map AnimationFrame ts) p) = counter_els p"
  by (induction ts arbitrary: p) (simp_all add: run_def)

lemma run_animation_frames:
  assumes "raf p = [a]"
  shows "raf (run sc (map AnimationFrame ts) p)
           = (case pending (Some a) ts of None \<Rightarrow> [] | Some b \<Rightarrow> [b])
       \<and> counter_els (run sc (map AnimationFrame ts) p)
           = (if ts = [] then counter_els p
              else (counter_els p)[anim_counter a := text_of (fst (last (frames (Some a) ts)))])"
  using assms
proof (induction ts arbitrary: p a)
  case Nil
  then show ?case by (simp add: run_def)
next
  case (Cons t ts)
  obtain sh a' where c: "callback a (Num t) = (sh, a')"
    by (cases "callback a (Num t)")
  define q where "q = fire sc (AnimationFrame t) p"
  have r: "run sc (map AnimationFrame (t # ts)) p = run sc (map AnimationFrame ts) q"
    by (simp add: run_def q_def)
  have pe: "pending (Some a) (t # ts) = pending a' ts"
    by (simp add: c)
  have fr: "frames (Some a) (t # ts) = (sh, a' \<noteq> None) # frames a' ts"
    by (simp add: c)
  show ?case
  proof (cases a')
    case None
    have q: "raf q = []" "counter_els q = (counter_els p)[anim_counter a := text_of sh]"
      using Cons.prems c None by (simp_all add: q_def run_anim_def)
    from run_idle [OF q(1), of sc ts] q(2) show ?thesis
      unfolding r pe fr None by simp
  next
    case (Some b)
    have q: "raf q = [b]" "counter_els q = (counter_els p)[anim_counter a := text_of sh]"
      using Cons.prems c Some by (simp_all add: q_def run_anim_def requestAnimationFrame_def)
    have cb: "anim_counter b = anim_counter a"
      using c Some by (intro callback_counter) simp
    from Cons.IH [OF q(1)] have
      1: "raf (run sc (map AnimationFrame ts) q)
            = (case pending (Some b) ts of None \<Rightarrow> [] | Some b \<Rightarrow> [b])"
      and 2: "counter_els (run sc (map AnimationFrame ts) q)
            = (if ts = [] then counter_els q
               else (counter_els q)[anim_counter b := text_of (fst (last (frames (Some b) ts)))])"
      by simp_all
    show ?thesis
    proof (cases "ts = []")
      case True
      with 1 2 q(2) show ?thesis
        unfolding r pe fr Some by simp
    next
      case False
      then have "frames (Some b) ts \<noteq> []"
        by (simp add: frames_Nil_iff)
      with 1 2 q(2) cb False show ?thesis
        unfolding r pe fr Some by simp
    qed
  qed
qed

section \<open>The claims\<close>

subsection \<open>The initial theme\<close>

text \<open>
  Claim C1. The theme controller initialises when the toggle button exists. Then it
  applies \<open>dark\<close> if nothing is stored and the system prefers dark; \<open>light\<close> if
  nothing is stored and the system does not prefer dark; and a stored preference,
  whatever the system prefers. A stored preference is one of the themes \<open>light\<close> and
  \<open>dark\<close>, the only values the controller writes; the third part holds for every
  stored string that is not empty, so for both.
\<close>

theorem initial_theme:
  assumes "theme_toggle p"
  shows "(storage p ''theme'' = None \<and> prefers_dark p
            \<longrightarrow> applied_theme (initThemeToggle p) = Some ''dark'')
       \<and> (storage p ''theme'' = None \<and> \<not> prefers_dark p
            \<longrightarrow> applied_theme (initThemeToggle p) = Some ''light'')
       \<and> (\<forall>s. storage p ''theme'' = Some s \<and> s \<noteq> ''''
            \<longrightarrow> applied_theme (initThemeToggle p) = Some s)"
  using assms
  by (simp add: initThemeToggle_def applied_theme_def addEventListener_def
      data_theme_applyTheme initialTheme_def)

theorem initial_theme_witness:
  "applied_theme (initThemeToggle (blank\<lparr>theme_toggle := True, prefers_dark := True\<rparr>))
     = Some ''dark''
   \<and> applied_theme (initThemeToggle (blank\<lparr>theme_toggle := True\<rparr>)) = Some ''light''
   \<and> applied_theme (initThemeToggle (themed True ''light'')) = Some ''light''
   \<and> applied_theme (initThemeToggle (themed False ''dark'')) = Some ''dark''"
  using initial_theme [of "blank\<lparr>theme_toggle := True, prefers_dark := True\<rparr>"]
    initial_theme [of "blank\<lparr>theme_toggle := True\<rparr>"]
    initial_theme [of "themed True ''light''"]
    initial_theme [of "themed False ''dark''"]
  by (simp add: blank_def themed_def)

subsection \<open>Toggling the theme\<close>

text \<open>
  Claim C2. Take a page with the toggle button, either script loaded on it, and any
  events after that. The stored value equals the theme attribute (so after the initial
  load, where there is no event yet), and it does so again after a click on the
  toggle, which leaves \<open>light\<close> or \<open>dark\<close> applied. The applied theme is \<open>light\<close> or
  \<open>dark\<close> at every moment when the store started with no preference or with one of
  the two themes. And from \<open>light\<close> or \<open>dark\<close>, one click changes the attribute and a
  second click brings the original value back.
\<close>

theorem theme_toggle_involution:
  assumes "fresh p" and "theme_toggle p" and "load sc p = Inr p'"
  shows "let q = run sc evs p';
             q1 = fire sc (Click ThemeToggle) q;
             q2 = fire sc (Click ThemeToggle) q1
         in storage q ''theme'' = data_theme q
          \<and> storage q1 ''theme'' = data_theme q1
          \<and> (data_theme q1 = Some ''light'' \<or> data_theme q1 = Some ''dark'')
          \<and> (storage p ''theme'' = None \<or> storage p ''theme'' = Some ''light''
               \<or> storage p ''theme'' = Some ''dark''
              \<longrightarrow> data_theme q = Some ''light'' \<or> data_theme q = Some ''dark'')
          \<and> (data_theme q = Some ''light'' \<or> data_theme q = Some ''dark''
              \<longrightarrow> data_theme q1 \<noteq> data_theme q \<and> data_theme q2 = data_theme q)"
proof -
  define q where "q = run sc evs p'"
  note v = load_theme_view [OF assms]
  have h: "handlers_of ThemeToggle q = [OnThemeClick]"
    using v by (simp add: q_def handlers_of_run theme_view_def)
  then have one: "fire sc (Click ThemeToggle) q = onThemeClick q"
    by (simp add: dispatch_one)
  have "handlers_of ThemeToggle (onThemeClick q) = [OnThemeClick]"
    using h handlers_of_run_handler [of ThemeToggle OnThemeClick q] by simp
  then have two: "fire sc (Click ThemeToggle) (onThemeClick q) = onThemeClick (onThemeClick q)"
    by (simp add: dispatch_one)
  have "theme_inv False p'"
    using v by (simp add: theme_inv_def theme_view_def)
  then have a: "storage q ''theme'' = data_theme q"
    using theme_inv_run [of False p' sc evs] by (simp add: q_def theme_inv_def)
  have b: "data_theme q = Some ''light'' \<or> data_theme q = Some ''dark''"
    if "storage p ''theme'' = None \<or> storage p ''theme'' = Some ''light''
          \<or> storage p ''theme'' = Some ''dark''"
  proof -
    have "theme_inv True p'"
      using v initialTheme_domain [OF that] by (auto simp add: theme_inv_def theme_view_def)
    then show ?thesis
      using theme_inv_run [of True p' sc evs] by (simp add: q_def theme_inv_def)
  qed
  show ?thesis
    unfolding Let_def q_def [symmetric] one two
    using a b onThemeClick_stored [of q] onThemeClick_flips [of q] onThemeClick_twice [of q]
    by blast
qed

theorem theme_toggle_involution_witness:
  "fresh (themed True ''light'') \<and> theme_toggle (themed True ''light'')
   \<and> load Main_js (themed True ''light'') = Inr (themed_loaded True ''light'')
   \<and> data_theme (themed_loaded True ''light'') = Some ''light''
   \<and> data_theme (fire Main_js (Click ThemeToggle) (themed_loaded True ''light'')) = Some ''dark''
   \<and> storage (fire Main_js (Click ThemeToggle) (themed_loaded True ''light'')) ''theme''
       = Some ''dark''
   \<and> data_theme (fire Main_js (Click ThemeToggle)
        (fire Main_js (Click ThemeToggle) (themed_loaded True ''light''))) = Some ''light''"
proof -
  have d: "data_theme (themed_loaded True ''light'') = Some ''light''"
    by (simp add: themed_loaded_def)
  have c: "data_theme (fire Main_js (Click ThemeToggle) (themed_loaded True ''light''))
           = Some ''dark''"
    by (simp add: themed_loaded_def themed_def blank_def dispatch_def onThemeClick_def
        applyTheme_def Let_def)
  show ?thesis
    using theme_toggle_involution [OF load_themed [of True], where evs = "[]"]
      load_themed [of True] d c
    by (simp add: run_def Let_def)
qed

subsection \<open>The sticky header at the threshold\<close>

text \<open>
  Claim C3, as the code has it. Once the scroll listener of \<open>js/main.js\<close> is registered
  on a page with a header, whatever happened before, the header carries \<open>is-sticky\<close>
  after a scroll event exactly when the offset is strictly above the threshold of 10:
  at an offset of exactly 10 it does not carry it.
\<close>

theorem sticky_above_threshold:
  assumes "header p = Some cl" and "listeners p = []" and "initStickyHeader_main p = Inr p'"
  shows "stickyPoint = 10
       \<and> (\<exists>cl'. header (fire Main_js (Scroll y) (run Main_js evs p')) = Some cl'
            \<and> (''is-sticky'' \<in> set cl') = (10 < y))"
proof -
  let ?q = "run Main_js evs p'"
  from initStickyHeader_main_handlers [OF assms]
  have h: "header p' = Some cl" and w: "handlers_of Window p' = [OnScroll]"
    by simp_all
  from h have "header ?q \<noteq> None"
    by (intro has_header_run) simp
  then obtain cl0 where h0: "header ?q = Some cl0"
    by auto
  have "handlers_of Window (?q\<lparr>scrollY := y\<rparr>) = [OnScroll]"
    using w handlers_of_run [of Window Main_js evs p'] by (simp add: handlers_of_def)
  then have "fire Main_js (Scroll y) ?q = onScroll (?q\<lparr>scrollY := y\<rparr>)"
    by (simp add: dispatch_one)
  moreover have "header (?q\<lparr>scrollY := y\<rparr>) = Some cl0"
    using h0 by simp
  ultimately show ?thesis
    using onScroll_sticky [of "?q\<lparr>scrollY := y\<rparr>" cl0]
    by (simp add: stickyPoint_def)
qed

theorem sticky_above_threshold_witness:
  "initStickyHeader_main (blank\<lparr>header := Some []\<rparr>)
     = Inr (blank\<lparr>header := Some [], listeners := [(Window, OnScroll)]\<rparr>)
   \<and> (\<exists>cl'. header (fire Main_js (Scroll 11) (run Main_js [Scroll 300, Scroll 4]
                (blank\<lparr>header := Some [], listeners := [(Window, OnScroll)]\<rparr>))) = Some cl'
         \<and> ''is-sticky'' \<in> set cl')"
proof -
  let ?p = "blank\<lparr>header := Some []\<rparr>"
  let ?p' = "blank\<lparr>header := Some [], listeners := [(Window, OnScroll)]\<rparr>"
  have h: "header ?p = Some []" and l: "listeners ?p = []"
    by (simp_all add: blank_def)
  have i: "initStickyHeader_main ?p = Inr ?p'"
    by (simp add: blank_def initStickyHeader_main_def addEventListener_def)
  show ?thesis
    using sticky_above_threshold [OF h l i, of 11 "[Scroll 300, Scroll 4]"] i
    by (simp del: fire.simps)
qed

theorem sticky_at_threshold_counterexample:
  "stickyPoint = 10
   \<and> initStickyHeader_main (blank\<lparr>header := Some [''is-sticky'']\<rparr>)
     = Inr (blank\<lparr>header := Some [''is-sticky''], listeners := [(Window, OnScroll)]\<rparr>)
   \<and> header (fire Main_js (Scroll 10)
        (blank\<lparr>header := Some [''is-sticky''], listeners := [(Window, OnScroll)]\<rparr>)) = Some []"
  by (simp add: blank_def initStickyHeader_main_def addEventListener_def dispatch_def
      onScroll_def stickyPoint_def classList_remove_def)

subsection \<open>The frames of the counter 1,234+\<close>

text \<open>
  Claim C4, as the code has it, for the display text \<open>1,234+\<close>. The last frame shows
  the target with the suffix, the text \<open>1,234+\<close>. In the second script (timestamps
  that are not negative and do not decrease) every frame before it shows an integer
  that is at least the one before and less than 1234, and the last frame is the first
  one that comes 2000 ms or more after the first frame with a timestamp other than 0.
  In \<open>js/main.js\<close> (any 126 frames or more) every frame before the last shows an
  integer greater than the one before and at most 1234: the sum of the increments is
  rounded at every step, the 125th sum is below 1234, and its frame shows 1,234 (see
  the counterexample).
\<close>

theorem counter_1234_frames:
  "text_of (Shown (Num 1234) ''+'') = ''1,234+''
   \<and> (126 \<le> length ts
        \<longrightarrow> counts_up (<) (\<lambda>a. a \<le> 1234) 0 (Shown (Num 1234) ''+'')
              (frames (Some (start_main c ''1,234+'')) ts)
          \<and> finals (frames (Some (start_main c ''1,234+'')) ts) = [Shown (Num 1234) ''+''])
   \<and> (sorted us \<and> (\<forall>t\<in>set us. 0 \<le> t)
        \<longrightarrow> counts_up (\<le>) (\<lambda>a. a < 1234) 0 (Shown (Num 1234) ''+'')
              (frames (Some (start_part c ''1,234+'')) us))
   \<and> (t0 \<noteq> 0 \<and> (\<exists>t\<in>set vs. t0 + 2000 \<le> t)
        \<longrightarrow> finals (frames (Some (start_part c ''1,234+'')) (replicate k 0 @ t0 # vs))
              = [Shown (Num 1234) ''+''])"
proof -
  have a: "text_of (Shown (Num 1234) ''+'') = ''1,234+''"
    by code_simp
  have b: "counts_up (<) (\<lambda>a. a \<le> 1234) 0 (Shown (Num 1234) ''+'')
              (frames (Some (start_main c ''1,234+'')) ts)
          \<and> finals (frames (Some (start_main c ''1,234+'')) ts) = [Shown (Num 1234) ''+'']"
    if "126 \<le> length ts"
  proof -
    have "counts_up (<) (\<lambda>a. a \<le> 1234) 0 (Shown (Num 1234) ''+'')
              (frames (Some (start_main c ''1,234+'')) ts)"
      unfolding frames_main_1234 [OF that] by (rule counts_up_main_1234)
    moreover have "finals (frames (Some (start_main c ''1,234+'')) ts) = [Shown (Num 1234) ''+'']"
      using start_main_terminates [OF that, of c "''1,234+''"]
      by (simp only: finals_pending) (simp add: start_main_1234)
    ultimately show ?thesis ..
  qed
  have d: "counts_up (\<le>) (\<lambda>a. a < 1234) 0 (Shown (Num 1234) ''+'')
              (frames (Some (start_part c ''1,234+'')) us)"
    if "sorted us" "\<forall>t\<in>set us. 0 \<le> t"
    unfolding start_part_1234 using that by (intro counts_up_unset_1234) simp_all
  have e: "finals (frames (Some (start_part c ''1,234+'')) (replicate k 0 @ t0 # vs))
             = [Shown (Num 1234) ''+'']"
    if "t0 \<noteq> 0" "\<exists>t\<in>set vs. t0 + 2000 \<le> t"
    using part_finishes [OF that, of c "''1,234+''" k]
    by (simp only: finals_pending) (simp add: start_part_1234)
  from a b d e show ?thesis
    by blast
qed

theorem counter_1234_frames_witness:
  "126 \<le> length (replicate 126 (0::rat))
   \<and> finals (frames (Some (start_main 0 ''1,234+'')) (replicate 126 0))
       = [Shown (Num 1234) ''+'']
   \<and> sorted [0, 16, 1016, 2016 :: rat]
   \<and> counts_up (\<le>) (\<lambda>a. a < 1234) 0 (Shown (Num 1234) ''+'')
        (frames (Some (start_part 0 ''1,234+'')) [0, 16, 1016, 2016])
   \<and> finals (frames (Some (start_part 0 ''1,234+'')) [0, 16, 1016, 2016])
       = [Shown (Num 1234) ''+'']"
  using counter_1234_frames [of "replicate 126 0" 0 "[0, 16, 1016, 2016]" 16 "[1016, 2016]" 1]
  by simp

theorem frame_125_counterexample:
  "frames (Some (start_main 0 ''1,234+'')) (replicate 126 0) ! 124
     = (Shown (Num 1234) [], True)
   \<and> text_of (Shown (Num 1234) []) = ''1,234''
   \<and> frames (Some (start_main 0 ''1,234+'')) (replicate 126 0) ! 125
     = (Shown (Num 1234) ''+'', False)"
proof -
  have f: "frames (Some (start_main 0 ''1,234+'')) (replicate 126 0)
     = map (\<lambda>v. (Shown (Num (of_int v)) [], True)) values_1234 @ [(Shown (Num 1234) ''+'', False)]"
    by (rule frames_main_1234) simp
  have t: "text_of (Shown (Num 1234) []) = ''1,234''"
    by code_simp
  show ?thesis
    unfolding f t by (simp add: values_1234_def)
qed

subsection \<open>The overlay is built once\<close>

text \<open>
  Claim C5, as the code has it. The overlay is built when the controller is initialised,
  not at the first open request: after initialisation on a page with the open control
  there is one overlay if there was none, and the overlays that were there otherwise.
  No event afterwards adds or removes an overlay, and every click on the open control,
  the first one too, only flips the open state of the body.
\<close>

theorem overlay_built_at_load:
  assumes "menu_toggle p" and "listeners p = []" and "initMobileNav sc p = Inr p'"
  shows "length (overlays p') = (if overlays p = [] then 1 else length (overlays p))
       \<and> overlays (run sc evs p') = overlays p'
       \<and> overlays (fire sc (Click MenuToggle) (run sc evs p')) = overlays p'
       \<and> menu_open (fire sc (Click MenuToggle) (run sc evs p'))
           = (\<not> menu_open (run sc evs p'))"
proof -
  have "handlers_of MenuToggle (run sc evs p') = [OnMenuToggleClick]"
    using initMobileNav_toggle_handlers [OF assms] by (simp add: handlers_of_run)
  then have f: "fire sc (Click MenuToggle) (run sc evs p') = toggleMenu (run sc evs p')"
    by (simp add: dispatch_one)
  have len: "length (overlays p') = (if overlays p = [] then 1 else length (overlays p))"
    using initMobileNav_overlays [OF assms(1,3)] by simp
  have o1: "overlays (run sc evs p') = overlays p'"
    by (rule overlays_run)
  have o2: "overlays (fire sc (Click MenuToggle) (run sc evs p')) = overlays p'"
    by (simp only: overlays_fire overlays_run)
  have m: "menu_open (fire sc (Click MenuToggle) (run sc evs p'))
             = (\<not> menu_open (run sc evs p'))"
    unfolding f by (rule toggleMenu_flips)
  from len o1 o2 m show ?thesis
    by (intro conjI)
qed

theorem overlay_built_at_load_witness:
  "initMobileNav_part with_menu = Inr with_menu_part
   \<and> length (overlays with_menu_part) = 1
   \<and> overlays (fire Part_000 (Click MenuToggle) (run Part_000 [Click MenuToggle] with_menu_part))
       = overlays with_menu_part
   \<and> \<not> menu_open (fire Part_000 (Click MenuToggle) (run Part_000 [Click MenuToggle] with_menu_part))"
proof -
  have m: "menu_toggle with_menu" and l: "listeners with_menu = []"
    and o: "overlays with_menu = []"
    by (simp_all add: with_menu_def blank_def)
  have "menu_open (run Part_000 [Click MenuToggle] with_menu_part)"
    by (simp add: run_def dispatch_def with_menu_part_def with_menu_def blank_def
        toggleMenu_def menu_open_def classList_toggle_def classList_add_def)
  then show ?thesis
    using overlay_built_at_load [of with_menu Part_000 with_menu_part "[Click MenuToggle]"]
      m l o initMobileNav_with_menu(2)
    by simp
qed

theorem first_open_click_counterexample:
  "initMobileNav_main with_menu = Inr with_menu_main
   \<and> initMobileNav_part with_menu = Inr with_menu_part
   \<and> length (overlays with_menu) = 0
   \<and> length (overlays with_menu_main) = 1
   \<and> length (overlays with_menu_part) = 1
   \<and> length (overlays (fire Main_js (Click MenuToggle) with_menu_main)) = 1
   \<and> length (overlays (fire Part_000 (Click MenuToggle) with_menu_part)) = 1"
proof -
  have "length (overlays with_menu) = 0" "length (overlays with_menu_main) = 1"
    "length (overlays with_menu_part) = 1"
    by (simp_all add: with_menu_def with_menu_main_def with_menu_part_def blank_def)
  then show ?thesis
    by (simp only: initMobileNav_with_menu overlays_fire simp_thms)
qed

subsection \<open>A link click closes the menu\<close>

text \<open>
  Claim C6, as the code has it. In the second script, when the controller itself built
  the overlay, a click on any of its links leaves the body without the open class,
  whatever happened before. (\<open>js/main.js\<close> registers no listener on the links, and an
  overlay that was already in the document gets none either: see the counterexample.)
\<close>

theorem link_click_closes_menu:
  assumes "menu_toggle p" and "listeners p = []" and "overlays p = []"
    and "initMobileNav_part p = Inr p'" and "i < length (desktop_links p)"
  shows "overlays p' = [\<lparr>ov_close_button = True, ov_links = desktop_links p\<rparr>]
       \<and> \<not> menu_open (fire Part_000 (Click (MenuLink 0 i)) (run Part_000 evs p'))"
proof -
  have "handlers_of (MenuLink 0 i) p' = [OnLinkClick]"
    using assms
    by (auto simp add: initMobileNav_part_def addEventListener_def listeners_add_links
        handlers_of_def filter_link_upt Let_def)
  then have "handlers_of (MenuLink 0 i) (run Part_000 evs p') = [OnLinkClick]"
    by (simp add: handlers_of_run)
  then have "fire Part_000 (Click (MenuLink 0 i)) (run Part_000 evs p')
               = closeMenu (run Part_000 evs p')"
    by (simp add: dispatch_one)
  moreover have "overlays p' = [\<lparr>ov_close_button = True, ov_links = desktop_links p\<rparr>]"
    using initMobileNav_overlays [of p Part_000 p'] assms by simp
  ultimately show ?thesis
    by (simp add: closeMenu_closes)
qed

theorem link_click_closes_menu_witness:
  "initMobileNav_part with_menu = Inr with_menu_part
   \<and> menu_open (run Part_000 [Click MenuToggle] with_menu_part)
   \<and> \<not> menu_open (fire Part_000 (Click (MenuLink 0 1))
                     (run Part_000 [Click MenuToggle] with_menu_part))"
proof -
  have m: "menu_toggle with_menu" and l: "listeners with_menu = []"
    and o: "overlays with_menu = []" and i: "1 < length (desktop_links with_menu)"
    by (simp_all add: with_menu_def blank_def desktop_links_def)
  have n: "initMobileNav_part with_menu = Inr with_menu_part"
    using initMobileNav_with_menu(2) by simp
  have "menu_open (run Part_000 [Click MenuToggle] with_menu_part)"
    by (simp add: run_def dispatch_def with_menu_part_def with_menu_def blank_def
        toggleMenu_def menu_open_def classList_toggle_def classList_add_def)
  then show ?thesis
    using link_click_closes_menu [OF m l o n i, of "[Click MenuToggle]"] n by simp
qed

theorem link_click_main_counterexample:
  "initMobileNav_main with_menu = Inr with_menu_main
   \<and> ov_links (hd (overlays with_menu_main)) = [''Home'', ''About'']
   \<and> menu_open (fire Main_js (Click MenuToggle) with_menu_main)
   \<and> menu_open (fire Main_js (Click (MenuLink 0 0))
                  (fire Main_js (Click MenuToggle) with_menu_main))"
  using initMobileNav_with_menu(1)
  by (simp add: dispatch_def with_menu_main_def with_menu_def blank_def
      toggleMenu_def menu_open_def classList_toggle_def classList_add_def)

subsection \<open>Observers fire once\<close>

text \<open>
  Claim C7. After either script has loaded on a page, whatever events follow: no reveal
  target and no counter target is processed twice (the record of the processed targets
  has no repetition), and a notification that reports an observed target as
  intersecting processes it and ends its observation.
\<close>

theorem observers_fire_once:
  assumes "fresh p" and "load sc p = Inr p'"
  shows "distinct (revealed (run sc evs p')) \<and> distinct (counted (run sc evs p'))
       \<and> (observes (reveal_observer (run sc evs p')) t \<and> t \<in> set vis
            \<longrightarrow> t \<in> set (revealed (fire sc (IntersectReveal vis) (run sc evs p')))
              \<and> \<not> observes (reveal_observer (fire sc (IntersectReveal vis) (run sc evs p'))) t)
       \<and> (observes (counter_observer (run sc evs p')) t \<and> t \<in> set vis
            \<longrightarrow> t \<in> set (counted (fire sc (IntersectCounters vis) (run sc evs p')))
              \<and> \<not> observes (counter_observer (fire sc (IntersectCounters vis) (run sc evs p'))) t)"
proof -
  have "one_shot_page (run sc evs p')"
    using one_shot_load [OF assms] by (rule one_shot_run)
  then have d: "distinct (revealed (run sc evs p'))" "distinct (counted (run sc evs p'))"
    by (auto simp add: one_shot_page_def one_shot_def split: option.splits)
  have r: "observes (reveal_observer q) t \<and> t \<in> set vis
            \<longrightarrow> t \<in> set (revealed (fire sc (IntersectReveal vis) q))
              \<and> \<not> observes (reveal_observer (fire sc (IntersectReveal vis) q)) t" for q
    by (cases "reveal_observer q") (simp_all only: fire_reveal_obs, simp_all add: observes_def)
  have c: "observes (counter_observer q) t \<and> t \<in> set vis
            \<longrightarrow> t \<in> set (counted (fire sc (IntersectCounters vis) q))
              \<and> \<not> observes (counter_observer (fire sc (IntersectCounters vis) q)) t" for q
    by (cases "counter_observer q") (simp_all only: fire_counters_obs, simp_all add: observes_def)
  from d r c show ?thesis
    by (intro conjI)
qed

theorem observers_fire_once_witness:
  "load Part_000 two_targets = Inr two_targets_loaded
   \<and> observes (reveal_observer two_targets_loaded) 0
   \<and> observes (counter_observer two_targets_loaded) 0
   \<and> \<not> observes (reveal_observer (fire Part_000 (IntersectReveal [0]) two_targets_loaded)) 0
   \<and> \<not> observes (counter_observer (fire Part_000 (IntersectCounters [0]) two_targets_loaded)) 0
   \<and> distinct (revealed (run Part_000
        [IntersectReveal [0], IntersectCounters [0], IntersectReveal [0], IntersectCounters [0]]
        two_targets_loaded))
   \<and> distinct (counted (run Part_000
        [IntersectReveal [0], IntersectCounters [0], IntersectReveal [0], IntersectCounters [0]]
        two_targets_loaded))"
proof -
  have o: "observes (reveal_observer two_targets_loaded) 0"
    "observes (counter_observer two_targets_loaded) 0"
    by (simp_all add: observes_def two_targets_loaded_def)
  have e: "run Part_000 [] two_targets_loaded = two_targets_loaded"
    by (simp add: run_def)
  show ?thesis
    using observers_fire_once [OF load_two_targets, of "[]" 0 "[0]"]
      observers_fire_once [OF load_two_targets,
        of "[IntersectReveal [0], IntersectCounters [0], IntersectReveal [0], IntersectCounters [0]]"]
      o load_two_targets(2)
    by (simp only: e) simp
qed

subsection \<open>Missing elements\<close>

text \<open>
  Claim C8, as the code has it. Each controller that looks its elements up returns the
  page as it was, and no error, when a required element is missing; so does the whole
  second script on a page with none of them. (\<open>initCarousels\<close> of \<open>js/main.js\<close> looks
  no element up: see the counterexample.)
\<close>

theorem absent_elements_no_op:
  "(header p = None \<longrightarrow> initStickyHeader_main p = Inr p)
   \<and> (header p = None \<or> \<not> sentinel p \<longrightarrow> initStickyHeader_part p = Inr p)
   \<and> (\<not> theme_toggle p \<longrightarrow> initThemeToggle p = Inr p)
   \<and> (\<not> menu_toggle p \<longrightarrow> initMobileNav_main p = Inr p \<and> initMobileNav_part p = Inr p)
   \<and> (reveal_els p = [] \<longrightarrow> initScrollAnimations p = Inr p)
   \<and> (counter_els p = [] \<longrightarrow> initCounters p = Inr p)
   \<and> (track p = None \<or> \<not> next_button p \<or> \<not> prev_button p
        \<longrightarrow> initTestimonialCarousel p = Inr p)
   \<and> (header p = None \<and> \<not> theme_toggle p \<and> \<not> menu_toggle p \<and> reveal_els p = []
        \<and> counter_els p = [] \<and> track p = None
        \<longrightarrow> load_part p = Inr p)"
  by (simp add: initStickyHeader_main_def initStickyHeader_part_def initThemeToggle_def
      initMobileNav_main_def initMobileNav_part_def initScrollAnimations_def
      initCounters_def initTestimonialCarousel_def load_part_def then_init_def)

theorem absent_elements_no_op_witness:
  "initStickyHeader_main blank = Inr blank
   \<and> initStickyHeader_part (blank\<lparr>io_supported := False\<rparr>) = Inr (blank\<lparr>io_supported := False\<rparr>)
   \<and> initThemeToggle blank = Inr blank
   \<and> initMobileNav_main blank = Inr blank
   \<and> initMobileNav_part blank = Inr blank
   \<and> initScrollAnimations (blank\<lparr>io_supported := False\<rparr>) = Inr (blank\<lparr>io_supported := False\<rparr>)
   \<and> initCounters (blank\<lparr>io_supported := False\<rparr>) = Inr (blank\<lparr>io_supported := False\<rparr>)
   \<and> initTestimonialCarousel blank = Inr blank
   \<and> load_part blank = Inr blank"
  using absent_elements_no_op [of blank] absent_elements_no_op [of "blank\<lparr>io_supported := False\<rparr>"]
  by (simp add: blank_def)

theorem swiper_carousels_counterexample:
  "swiper_containers blank = 0
   \<and> initCarousels blank
       = Inr (blank\<lparr>swipers := [''.tm-testimonial'', ''.tm-logo-carousel'']\<rparr>)
   \<and> initCarousels blank \<noteq> Inr blank"
  by (simp add: initCarousels_def blank_def)

subsection \<open>A counter text with no digit\<close>

text \<open>
  Claim C9 does not hold on the code. A counter whose text \<open>N/A\<close> has no digit gets
  the target NaN, and no branch tests for it: \<open>js/main.js\<close> shows \<open>NaNN/A\<close> at
  its first frame; the second script resets the text to \<open>0\<close>, shows \<open>NaN\<close> while
  it runs and \<open>NaNN/A\<close> at the end.
\<close>

theorem no_digits_text_overwritten:
  "initCounters (blank\<lparr>counter_els := [''N/A'']\<rparr>) = Inr not_a_number
   \<and> counter_els (run Main_js [IntersectCounters [0], AnimationFrame 16] not_a_number)
       = [''NaNN/A'']
   \<and> counter_els (run Part_000 [IntersectCounters [0]] not_a_number) = [''0'']
   \<and> counter_els (run Part_000 [IntersectCounters [0], AnimationFrame 100] not_a_number)
       = [''NaN'']
   \<and> counter_els (run Part_000
        [IntersectCounters [0], AnimationFrame 100, AnimationFrame 2100] not_a_number)
       = [''NaNN/A'']"
  by (simp add: not_a_number_def blank_def initCounters_def observe_def run_def
      entries_for_def counterCallback_main_def counterCallback_part_def
      counterEntry_main_def counterEntry_part_def requestAnimationFrame_def start_NA
      run_anim_def updateCount_def step_def duration_def unobserve_def
      fl_0 fl_1 fl_2000 Let_def)

subsection \<open>The counter animations end\<close>

text \<open>
  Claim C10. A frame callback that finds the sum at the target (\<open>updateCount\<close>) or
  the elapsed time at 2000 ms or more (\<open>step\<close>) shows the final value and asks for no
  further frame. Both animations get there: \<open>updateCount\<close> within 126 frames whatever
  the text of the counter, \<open>step\<close> at the first frame that comes 2000 ms or more after
  its first frame with a timestamp other than 0.
\<close>

theorem counter_animation_ends:
  "(\<not> js_lt (js_add current increment) target
      \<longrightarrow> updateCount c current increment target suf = (Shown target suf, None))
   \<and> (s \<noteq> 0 \<and> s + 2000 \<le> t
        \<longrightarrow> step c (Some (Num s)) target suf (Num t) = (Shown target suf, None))
   \<and> (126 \<le> length ts
        \<longrightarrow> pending (Some (start_main c targetText)) ts = None
          \<and> finals (frames (Some (start_main c targetText)) ts)
              = [final_of (start_main c targetText)])
   \<and> (t0 \<noteq> 0 \<and> (\<exists>t\<in>set us. t0 + 2000 \<le> t)
        \<longrightarrow> pending (Some (start_part c targetText)) (replicate k 0 @ t0 # us) = None
          \<and> finals (frames (Some (start_part c targetText)) (replicate k 0 @ t0 # us))
              = [final_of (start_part c targetText)])"
proof -
  have a: "updateCount c current increment target suf = (Shown target suf, None)"
    if "\<not> js_lt (js_add current increment) target"
    using that by (simp add: updateCount_def)
  have b: "step c (Some (Num s)) target suf (Num t) = (Shown target suf, None)"
    if "s \<noteq> 0" "s + 2000 \<le> t"
    using that progress_done [of s t] by (simp add: step_next)
  have d: "pending (Some (start_main c targetText)) ts = None
          \<and> finals (frames (Some (start_main c targetText)) ts)
              = [final_of (start_main c targetText)]"
    if "126 \<le> length ts"
    using start_main_terminates [OF that, of c targetText] by (simp only: finals_pending) simp
  have e: "pending (Some (start_part c targetText)) (replicate k 0 @ t0 # us) = None
          \<and> finals (frames (Some (start_part c targetText)) (replicate k 0 @ t0 # us))
              = [final_of (start_part c targetText)]"
    if "t0 \<noteq> 0" "\<exists>t\<in>set us. t0 + 2000 \<le> t"
    using part_finishes [OF that, of c targetText k] by (simp only: finals_pending) simp
  from a b d e show ?thesis
    by blast
qed

theorem counter_animation_ends_witness:
  "updateCount 0 (Num 1230) (Num 10) (Num 1234) ''+'' = (Shown (Num 1234) ''+'', None)
   \<and> step 0 (Some (Num 16)) (Num 1234) ''+'' (Num 2016) = (Shown (Num 1234) ''+'', None)
   \<and> pending (Some (start_main 0 ''99%'')) (replicate 126 0) = None
   \<and> pending (Some (start_part 0 ''99%'')) [0, 16, 1016, 2016] = None"
proof -
  have "fl 1240 = 1240"
    by (simp add: fl_binades rne_numeral_int)
  then have "\<not> js_lt (js_add (Num 1230) (Num 10)) (Num 1234)"
    by simp
  then show ?thesis
    using counter_animation_ends [of "Num 1230" "Num 10" "Num 1234" 0 "''+''" 16 2016
        "replicate 126 0" "''99%''" 16 "[1016, 2016]" 1]
    by simp
qed

end
